theory Spec2Isabelle
  imports Main "HOL-Library.AList"
begin

section \<open>Record map sanitization (sanitizeRecordMap)\<close>

text \<open>
  The development follows the later of the two versions of \<open>sanitizeRecordMap\<close> in the
  repository (the one with the reference-resolution pass, wrapper flattening, type
  inference and dual keying).

  The function works on untyped JavaScript data, mutates the record objects it is given
  and stores them again in the mappings it returns. The model therefore has
  \<^item> a datatype of JavaScript values, with the truthiness test the source relies on;
  \<^item> objects as association lists in insertion order (\<open>obj[k] = v\<close> is
    \<open>AList.update\<close>: an existing key keeps its place, a new key goes last);
  \<^item> a store of record objects, addressed by position, so that a mapping entry
    \<open>(key, a)\<close> is a reference to the record object at address \<open>a\<close>: the block loop
    writes the store, and two keys of the output may hold the same address.

  Limits of the model: numbers are integers; strings are lists of 8-bit characters;
  keys are identifiers, so the rule of JavaScript that enumerates array-index keys
  (\<open>"0"\<close>, \<open>"7"\<close>) before the others is not modelled; the value of a record is an object
  or absent, as the type \<open>ExtendedRecordMap\<close> has it.
\<close>

subsection \<open>JavaScript values and objects\<close>

datatype jsval =
    JUndefined
  | JNull
  | JBool bool
  | JNum int
  | JStr string
  | JArr "jsval list"
  | JObj "(string \<times> jsval) list"

type_synonym props = "(string \<times> jsval) list"

text \<open>\<open>!!v\<close>: the falsy values are undefined, null, false, 0 and the empty string.\<close>

fun truthy :: "jsval \<Rightarrow> bool" where
  "truthy JUndefined = False"
| "truthy JNull = False"
| "truthy (JBool b) = b"
| "truthy (JNum n) = (n \<noteq> 0)"
| "truthy (JStr s) = (s \<noteq> [])"
| "truthy (JArr xs) = True"
| "truthy (JObj ps) = True"

text \<open>\<open>obj.k\<close> on an object: the property, or undefined when there is none.\<close>

definition obj_get :: "props \<Rightarrow> string \<Rightarrow> jsval" where
  "obj_get ps k = (case map_of ps k of Some v \<Rightarrow> v | None \<Rightarrow> JUndefined)"

text \<open>
  \<open>v?.k\<close> for the property names the source reads (\<open>value\<close>, \<open>content\<close>): on anything
  but an object the result is undefined.
\<close>

fun getProp :: "jsval \<Rightarrow> string \<Rightarrow> jsval" where
  "getProp (JObj ps) k = obj_get ps k"
| "getProp v k = JUndefined"

text \<open>
  The own enumerable properties that an object spread \<open>{...v}\<close> copies: those of an
  object, the elements of an array and the characters of a string under their decimal
  indices, none for the other values.
\<close>

fun decimal :: "nat \<Rightarrow> string" where
  "decimal n =
     (if n < 10 then [''0123456789'' ! n]
      else decimal (n div 10) @ [''0123456789'' ! (n mod 10)])"

declare decimal.simps [simp del]

definition indexed :: "jsval list \<Rightarrow> props" where
  "indexed xs = zip (map decimal [0..<length xs]) xs"

fun ownEntries :: "jsval \<Rightarrow> props" where
  "ownEntries (JObj ps) = ps"
| "ownEntries (JArr xs) = indexed xs"
| "ownEntries (JStr s) = indexed (map (\<lambda>c. JStr [c]) s)"
| "ownEntries v = []"

text \<open>\<open>{...target, ...src}\<close>, the properties of \<open>src\<close> assigned one by one.\<close>

definition spread :: "props \<Rightarrow> props \<Rightarrow> props" where
  "spread target src = fold (\<lambda>(k, v). AList.update k v) src target"

subsection \<open>Records, the store and the record map\<close>

text \<open>
  A block or collection record \<open>{ role, value }\<close>. Its value is a Block object or is
  absent (\<open>None\<close>: undefined, null or another falsy value); the fields of the value,
  the nested \<open>value\<close> among them, are arbitrary JavaScript values. An address outside
  the store stands for a record that is itself undefined or null.
\<close>

record blockRecord =
  role :: jsval
  rvalue :: "props option"

type_synonym store = "blockRecord list"

definition lookupRec :: "store \<Rightarrow> nat \<Rightarrow> blockRecord option" where
  "lookupRec st a = (if a < length st then Some (st ! a) else None)"

record heap =
  blockRecs :: store
  collectionRecs :: store

text \<open>
  The record map: \<open>block\<close> and \<open>collection\<close> are the entries of the two mappings in
  enumeration order (\<open>Object.entries\<close>), each key with the address of its record;
  \<open>None\<close> is a mapping that is absent. \<open>others\<close> are the fields passed through.
\<close>

record recordMap =
  block :: "(string \<times> nat) list option"
  collection :: "(string \<times> nat) list option"
  others :: props

datatype diagnostic =
    MissingBlocks nat
  | FailedToSetType string

subsection \<open>Key normalisation\<close>

text \<open>
  \<open>parsePageId(key, { uuid: false }) || key\<close>. \<open>parsePageId\<close> belongs to the
  notion-utils package and is a parameter \<open>pp\<close> of the model; \<open>None\<close> is its null.
\<close>

definition normalizeKey :: "(string \<Rightarrow> string option) \<Rightarrow> string \<Rightarrow> string" where
  "normalizeKey pp key =
     (case pp key of Some n \<Rightarrow> if n \<noteq> [] then n else key | None \<Rightarrow> key)"

text \<open>
  Modelled from the spec: \<open>parsePageId\<close> of notion-utils is not part of the sources;
  the five definitions that follow are the spec's key normalizer. An identifier is
  dashed (8-4-4-4-12 hex groups) or undashed (32 hex characters); the hex digits are
  the lower-case ones, as in notion-utils.
\<close>

definition isHexLower :: "char \<Rightarrow> bool" where
  "isHexLower c = (c \<in> set ''0123456789abcdef'')"

definition stripDashes :: "string \<Rightarrow> string" where
  "stripDashes s = filter (\<lambda>c. c \<noteq> CHR ''-'') s"

definition isUndashedId :: "string \<Rightarrow> bool" where
  "isUndashedId s = (length s = 32 \<and> list_all isHexLower s)"

definition isDashedId :: "string \<Rightarrow> bool" where
  "isDashedId s =
     (length s = 36 \<and>
      list_all isHexLower (take 8 s) \<and> s ! 8 = CHR ''-'' \<and>
      list_all isHexLower (take 4 (drop 9 s)) \<and> s ! 13 = CHR ''-'' \<and>
      list_all isHexLower (take 4 (drop 14 s)) \<and> s ! 18 = CHR ''-'' \<and>
      list_all isHexLower (take 4 (drop 19 s)) \<and> s ! 23 = CHR ''-'' \<and>
      list_all isHexLower (drop 24 s))"

text \<open>
  Modelled from the spec: \<open>parsePageId\<close> of notion-utils with \<open>{ uuid: false }\<close>, not
  part of the sources. The spec's key normalizer strips the separators of a dashed
  identifier, passes an undashed one through, and leaves any other string to the
  caller's fallback (\<open>None\<close>).
\<close>

definition parsePageId :: "string \<Rightarrow> string option" where
  "parsePageId s =
     (if isUndashedId s then Some s
      else if isDashedId s then Some (stripDashes s)
      else None)"

subsection \<open>First pass: reference resolution\<close>

text \<open>The map from normalised key and from key to storage key, in iteration order.\<close>

definition normalizedBlockKeys ::
  "(string \<Rightarrow> string option) \<Rightarrow> string list \<Rightarrow> (string \<times> string) list" where
  "normalizedBlockKeys pp keys =
     fold (\<lambda>key m. AList.update key key (AList.update (normalizeKey pp key) key m)) keys []"

text \<open>\<open>/^[0-9a-f]+$/i\<close> on a string of length 32.\<close>

definition isHexChar :: "char \<Rightarrow> bool" where
  "isHexChar c = (c \<in> set ''0123456789abcdefABCDEF'')"

definition addDashes :: "string \<Rightarrow> string" where
  "addDashes n =
     take 8 n @ ''-'' @ take 4 (drop 8 n) @ ''-'' @ take 4 (drop 12 n) @ ''-'' @
     take 4 (drop 16 n) @ ''-'' @ drop 20 n"

text \<open>A string-or-undefined used as a condition.\<close>

fun truthyKey :: "string option \<Rightarrow> bool" where
  "truthyKey None = False"
| "truthyKey (Some k) = (k \<noteq> [])"

text \<open>\<open>actualKey\<close> for one child identifier (a string).\<close>

definition resolveChild ::
  "(string \<Rightarrow> string option) \<Rightarrow> string list \<Rightarrow> string \<Rightarrow> string option" where
  "resolveChild pp keys childId =
     (if childId \<in> set keys then Some childId
      else
        let normalizedChildId = normalizeKey pp childId;
            actualKey = map_of (normalizedBlockKeys pp keys) normalizedChildId
        in if \<not> truthyKey actualKey \<and> length normalizedChildId = 32 \<and>
              list_all isHexChar normalizedChildId
           then (if addDashes normalizedChildId \<in> set keys
                 then Some (addDashes normalizedChildId) else actualKey)
           else actualKey)"

text \<open>\<open>Set.add\<close>, the set kept as a list without repetition.\<close>

definition set_add :: "string \<Rightarrow> string list \<Rightarrow> string list" where
  "set_add x xs = (if x \<in> set xs then xs else xs @ [x])"

text \<open>
  One element of a content array against \<open>(referencedBlockIds, missingBlockIds)\<close>;
  an element that is not a string is passed over.
\<close>

fun classifyChild ::
  "(string \<Rightarrow> string option) \<Rightarrow> string list \<Rightarrow> jsval \<Rightarrow>
   string list \<times> string list \<Rightarrow> string list \<times> string list" where
  "classifyChild pp keys (JStr childId) (referenced, missing) =
     (let actualKey = resolveChild pp keys childId
      in if truthyKey actualKey then (set_add (the actualKey) referenced, missing)
         else (referenced, set_add childId missing))"
| "classifyChild pp keys v acc = acc"

text \<open>
  The content array the first pass iterates for a record:
  \<open>blockValue = blockRecord?.value?.value || blockRecord?.value\<close>, and
  \<open>blockValue.content\<close> when that is an array.
\<close>

definition contentOf :: "blockRecord option \<Rightarrow> jsval list" where
  "contentOf r =
     (case r of
        None \<Rightarrow> []
      | Some blockRecord \<Rightarrow>
          (case rvalue blockRecord of
             None \<Rightarrow> []
           | Some v \<Rightarrow>
               let blockValue = (if truthy (obj_get v ''value'') then obj_get v ''value''
                                 else JObj v)
               in (case getProp blockValue ''content'' of
                     JArr xs \<Rightarrow> xs
                   | _ \<Rightarrow> [])))"

definition resolveReferences ::
  "(string \<Rightarrow> string option) \<Rightarrow> store \<Rightarrow> (string \<times> nat) list \<Rightarrow>
   string list \<times> string list" where
  "resolveReferences pp st entries =
     fold (\<lambda>(key, a) acc.
             fold (classifyChild pp (map fst entries)) (contentOf (lookupRec st a)) acc)
          entries ([], [])"

subsection \<open>Second pass: flattening, identifier backfill, type inference, dual keying\<close>

definition hasNestedValue :: "props \<Rightarrow> bool" where
  "hasNestedValue v = truthy (obj_get v ''value'')"

text \<open>
  \<open>wrapperProps = { ...value }; delete wrapperProps.value;
  value = { ...wrapperProps, ...actualBlock }\<close> when the value is a wrapper.
\<close>

definition flattenValue :: "props \<Rightarrow> props" where
  "flattenValue v =
     (if hasNestedValue v
      then spread (AList.delete ''value'' v) (ownEntries (obj_get v ''value''))
      else v)"

text \<open>\<open>blockId = key || blockValue?.id\<close>, stored when the id is missing or empty.\<close>

definition backfillId :: "string \<Rightarrow> props \<Rightarrow> props" where
  "backfillId key blockValue =
     (let blockId = (if key \<noteq> [] then JStr key else obj_get blockValue ''id'')
      in if truthy blockId \<and>
            (\<not> truthy (obj_get blockValue ''id'') \<or> obj_get blockValue ''id'' = JStr [])
         then AList.update ''id'' blockId blockValue
         else blockValue)"

definition inferType :: "props \<Rightarrow> string" where
  "inferType blockValue =
     (if truthy (obj_get blockValue ''properties'') then ''text''
      else if (case obj_get blockValue ''content'' of JArr xs \<Rightarrow> True | _ \<Rightarrow> False)
        then ''column_list''
      else if obj_get blockValue ''parent_table'' = JStr ''collection'' then ''page''
      else ''text'')"

definition setType :: "props \<Rightarrow> props" where
  "setType blockValue =
     (if \<not> truthy (obj_get blockValue ''type'')
      then AList.update ''type'' (JStr (inferType blockValue)) blockValue
      else blockValue)"

text \<open>\<open>finalId = key\<close>, stored when the key is non-empty and the id still missing.\<close>

definition setFinalId :: "string \<Rightarrow> props \<Rightarrow> props" where
  "setFinalId key blockValue =
     (if key \<noteq> [] \<and>
         (\<not> truthy (obj_get blockValue ''id'') \<or> obj_get blockValue ''id'' = JStr [])
      then AList.update ''id'' (JStr key) blockValue
      else blockValue)"

text \<open>
  What one iteration of the block loop does to the value of its record, and the
  diagnostic it would print if no type had been set.
\<close>

definition sanitizeBlock :: "string \<Rightarrow> props \<Rightarrow> props \<times> diagnostic list" where
  "sanitizeBlock key v =
     (let flat = flattenValue v;
          withId = backfillId key flat;
          hadType = truthy (obj_get withId ''type'');
          typed = setType withId;
          warn = (if \<not> hadType \<and> \<not> truthy (obj_get typed ''type'')
                  then [FailedToSetType key] else [])
      in (setFinalId key typed, warn))"

text \<open>
  \<open>sanitizedBlocks[key] = blockRecord\<close>, and the same record under the normalised key
  when that differs.
\<close>

definition storeKeys ::
  "(string \<Rightarrow> string option) \<Rightarrow> string \<Rightarrow> nat \<Rightarrow> (string \<times> nat) list \<Rightarrow> (string \<times> nat) list" where
  "storeKeys pp key a sanitizedBlocks =
     (if key \<noteq> [] then
        (let normalizedKey = normalizeKey pp key;
             stored = AList.update key a sanitizedBlocks
         in if normalizedKey \<noteq> key \<and> normalizedKey \<noteq> []
            then AList.update normalizedKey a stored else stored)
      else sanitizedBlocks)"

text \<open>One iteration of the block loop on (store, sanitizedBlocks, diagnostics).\<close>

definition blockStep ::
  "(string \<Rightarrow> string option) \<Rightarrow> string \<times> nat \<Rightarrow>
   store \<times> (string \<times> nat) list \<times> diagnostic list \<Rightarrow>
   store \<times> (string \<times> nat) list \<times> diagnostic list" where
  "blockStep pp e s =
     (case e of (key, a) \<Rightarrow>
      case s of (st, sanitizedBlocks, log) \<Rightarrow>
        (case lookupRec st a of
           None \<Rightarrow> s
         | Some blockRecord \<Rightarrow>
             (case rvalue blockRecord of
                None \<Rightarrow> s
              | Some v \<Rightarrow>
                  (st[a := blockRecord\<lparr>rvalue := Some (fst (sanitizeBlock key v))\<rparr>],
                   storeKeys pp key a sanitizedBlocks,
                   log @ snd (sanitizeBlock key v)))))"

text \<open>One iteration of the collection loop on (store, sanitizedCollections).\<close>

definition collectionStep ::
  "string \<times> nat \<Rightarrow> store \<times> (string \<times> nat) list \<Rightarrow> store \<times> (string \<times> nat) list" where
  "collectionStep e s =
     (case e of (key, a) \<Rightarrow>
      case s of (st, sanitizedCollections) \<Rightarrow>
        (case lookupRec st a of
           None \<Rightarrow> s
         | Some collectionRecord \<Rightarrow>
             (case rvalue collectionRecord of
                None \<Rightarrow> s
              | Some v \<Rightarrow>
                  (st[a := collectionRecord\<lparr>rvalue := Some (flattenValue v)\<rparr>],
                   AList.update key a sanitizedCollections))))"

subsection \<open>The whole function\<close>

text \<open>
  The result is the returned record map, the heap after the call and the diagnostics
  printed, in order.
\<close>

definition missingSummary :: "string list \<Rightarrow> diagnostic list" where
  "missingSummary missingBlockIds =
     (if length missingBlockIds > 0 then [MissingBlocks (length missingBlockIds)] else [])"

definition sanitizeRecordMap ::
  "(string \<Rightarrow> string option) \<Rightarrow> heap \<Rightarrow> recordMap \<Rightarrow> recordMap \<times> heap \<times> diagnostic list" where
  "sanitizeRecordMap pp h recordMap =
     (case block recordMap of
        None \<Rightarrow> (recordMap, h, [])
      | Some entries \<Rightarrow>
          (let missingBlockIds = snd (resolveReferences pp (blockRecs h) entries);
               blocks = fold (blockStep pp) entries
                          (blockRecs h, [], missingSummary missingBlockIds);
               collections = (case collection recordMap of
                                None \<Rightarrow> (collectionRecs h, [])
                              | Some centries \<Rightarrow> fold collectionStep centries (collectionRecs h, []))
           in (recordMap\<lparr>block := Some (fst (snd blocks)), collection := Some (snd collections)\<rparr>,
               \<lparr>blockRecs = fst blocks, collectionRecs = fst collections\<rparr>,
               snd (snd blocks))))"

subsection \<open>Notions used in the statements and proofs\<close>

text \<open>The record at address \<open>a\<close> exists and has a value: the loops process it.\<close>

definition hasValue :: "store \<Rightarrow> nat \<Rightarrow> bool" where
  "hasValue st a = (a < length st \<and> rvalue (st ! a) \<noteq> None)"

text \<open>The iteration for \<open>key\<close> assigns \<open>sanitizedBlocks[c]\<close>.\<close>

definition writes :: "(string \<Rightarrow> string option) \<Rightarrow> string \<Rightarrow> string \<Rightarrow> bool" where
  "writes pp key c = (key \<noteq> [] \<and> (c = key \<or> (c = normalizeKey pp key \<and> c \<noteq> [])))"

text \<open>A record after the iteration of the block loop for \<open>key\<close>.\<close>

definition processed :: "string \<Rightarrow> blockRecord \<Rightarrow> blockRecord" where
  "processed key r = r\<lparr>rvalue := Some (fst (sanitizeBlock key (the (rvalue r))))\<rparr>"

text \<open>The record at address \<open>a\<close> has a value with a non-empty type.\<close>

definition typed :: "store \<Rightarrow> nat \<Rightarrow> bool" where
  "typed st a = (\<exists>v. rvalue (st ! a) = Some v \<and> truthy (obj_get v ''type''))"

text \<open>All the elements of all the content arrays the first pass iterates, in its order.\<close>

definition contentChildren :: "store \<Rightarrow> (string \<times> nat) list \<Rightarrow> jsval list" where
  "contentChildren st entries = concat (map (\<lambda>(key, a). contentOf (lookupRec st a)) entries)"

text \<open>The storage keys that are \<open>n\<close> or have the normalised form \<open>n\<close>, in iteration order.\<close>

definition matchingKeys :: "(string \<Rightarrow> string option) \<Rightarrow> string list \<Rightarrow> string \<Rightarrow> string list" where
  "matchingKeys pp keys n = filter (\<lambda>k. k = n \<or> normalizeKey pp k = n) keys"

text \<open>A record after the iteration of the collection loop.\<close>

definition flattened :: "blockRecord \<Rightarrow> blockRecord" where
  "flattened r = r\<lparr>rvalue := Some (flattenValue (the (rvalue r)))\<rparr>"

text \<open>The dual-keying assignments for a list of entries, on \<open>sanitizedBlocks\<close>.\<close>

definition storeAll ::
  "(string \<Rightarrow> string option) \<Rightarrow> (string \<times> nat) list \<Rightarrow> (string \<times> nat) list \<Rightarrow> (string \<times> nat) list" where
  "storeAll pp xs acc = fold (\<lambda>(c, a). storeKeys pp c a) xs acc"

text \<open>
  In a list of keys, no key after a key \<open>u\<close> outside \<open>K\<close> assigns \<open>u\<close> in its
  iteration.
\<close>

definition noLaterWriter :: "(string \<Rightarrow> string option) \<Rightarrow> string list \<Rightarrow> string set \<Rightarrow> bool" where
  "noLaterWriter pp keys K =
     (\<forall>xs u ys. keys = xs @ u # ys \<longrightarrow> u \<notin> K \<longrightarrow> (\<forall>k \<in> set ys. \<not> writes pp k u))"

text \<open>
  No two different keys that are not in canonical form have the same canonical form: a
  canonical form has at most one other spelling among the keys.
\<close>

definition singleAlias :: "(string \<Rightarrow> string option) \<Rightarrow> string list \<Rightarrow> bool" where
  "singleAlias pp keys =
     (\<forall>k1 \<in> set keys. \<forall>k2 \<in> set keys.
        normalizeKey pp k1 = normalizeKey pp k2 \<longrightarrow>
        k1 = k2 \<or> normalizeKey pp k1 = k1 \<or> normalizeKey pp k2 = k2)"

text \<open>
  No listed record is wrapped twice: the flattened value of a wrapper has no truthy
  \<open>value\<close> field of its own.
\<close>

definition wrappedOnce :: "store \<Rightarrow> (string \<times> nat) list \<Rightarrow> bool" where
  "wrappedOnce st es =
     (\<forall>(k, a) \<in> set es.
        case lookupRec st a of
          None \<Rightarrow> True
        | Some r \<Rightarrow> (case rvalue r of
                      None \<Rightarrow> True
                    | Some v \<Rightarrow> \<not> hasNestedValue (flattenValue v)))"

subsection \<open>Example inputs\<close>

text \<open>An identifier in its undashed and in its dashed form.\<close>

definition exU :: string where
  "exU = ''abc1234567890abcdef1234567890abc''"

definition exD :: string where
  "exD = ''abc12345-6789-0abc-def1-234567890abc''"

text \<open>Two records stored under the two forms of one identifier, the undashed first.\<close>

definition collisionHeap :: heap where
  "collisionHeap =
     \<lparr>blockRecs = [\<lparr>role = JStr ''reader'', rvalue = Some [(''id'', JStr ''first'')]\<rparr>,
                   \<lparr>role = JStr ''reader'', rvalue = Some [(''id'', JStr ''second'')]\<rparr>],
      collectionRecs = []\<rparr>"

definition collisionMap :: recordMap where
  "collisionMap = \<lparr>block = Some [(exU, 0), (exD, 1)], collection = None, others = []\<rparr>"

text \<open>Blocks without a type, one for each rule of the inference, and one with a type.\<close>

definition typesHeap :: heap where
  "typesHeap =
     \<lparr>blockRecs =
        [\<lparr>role = JStr ''reader'',
          rvalue = Some [(''properties'', JObj [(''title'', JArr [JArr [JStr ''Hi'']])]),
                         (''content'', JArr [JStr ''b1''])]\<rparr>,
         \<lparr>role = JStr ''reader'', rvalue = Some [(''content'', JArr [JStr ''b2''])]\<rparr>,
         \<lparr>role = JStr ''reader'', rvalue = Some [(''parent_table'', JStr ''collection'')]\<rparr>,
         \<lparr>role = JStr ''reader'', rvalue = Some [(''parent_table'', JStr ''block'')]\<rparr>,
         \<lparr>role = JStr ''reader'', rvalue = Some [(''type'', JStr ''header'')]\<rparr>],
      collectionRecs = []\<rparr>"

definition typesMap :: recordMap where
  "typesMap =
     \<lparr>block = Some [(''b0'', 0), (''b1'', 1), (''b2'', 2), (''b3'', 3), (''b4'', 4)],
      collection = None, others = []\<rparr>"

text \<open>The wrapped record \<open>{ role: 'reader', value: { id: 'x', type: 'page' } }\<close>.\<close>

definition wrapperHeap :: heap where
  "wrapperHeap =
     \<lparr>blockRecs =
        [\<lparr>role = JUndefined,
          rvalue = Some [(''role'', JStr ''reader''),
                         (''value'', JObj [(''id'', JStr ''x''), (''type'', JStr ''page'')])]\<rparr>],
      collectionRecs = []\<rparr>"

definition wrapperMap :: recordMap where
  "wrapperMap = \<lparr>block = Some [(''x'', 0)], collection = None, others = []\<rparr>"

text \<open>A parent whose content holds a number, and one that names a missing child twice.\<close>

definition numberRefHeap :: heap where
  "numberRefHeap =
     \<lparr>blockRecs = [\<lparr>role = JStr ''reader'',
                     rvalue = Some [(''id'', JStr ''p''), (''type'', JStr ''page''),
                                    (''content'', JArr [JNum 42])]\<rparr>],
      collectionRecs = []\<rparr>"

definition repeatedRefHeap :: heap where
  "repeatedRefHeap =
     \<lparr>blockRecs = [\<lparr>role = JStr ''reader'',
                     rvalue = Some [(''id'', JStr ''p''), (''type'', JStr ''page''),
                                    (''content'', JArr [JStr ''x'', JStr ''x''])]\<rparr>],
      collectionRecs = []\<rparr>"

definition parentMap :: recordMap where
  "parentMap = \<lparr>block = Some [(''p'', 0)], collection = None, others = []\<rparr>"

text \<open>A block stored under the dashed key, and a parent that refers to it undashed.\<close>

definition resolveHeap :: heap where
  "resolveHeap =
     \<lparr>blockRecs =
        [\<lparr>role = JStr ''reader'', rvalue = Some [(''id'', JStr exD), (''type'', JStr ''text'')]\<rparr>,
         \<lparr>role = JStr ''reader'',
          rvalue = Some [(''id'', JStr ''p''), (''type'', JStr ''page''),
                         (''content'', JArr [JStr exU, JStr ''gone''])]\<rparr>],
      collectionRecs = []\<rparr>"

definition resolveMap :: recordMap where
  "resolveMap = \<lparr>block = Some [(exD, 0), (''p'', 1)], collection = None, others = []\<rparr>"

text \<open>A record map without a block mapping, whose collection record has no value.\<close>

definition noBlockHeap :: heap where
  "noBlockHeap = \<lparr>blockRecs = [], collectionRecs = [\<lparr>role = JStr ''reader'', rvalue = None\<rparr>]\<rparr>"

definition noBlockMap :: recordMap where
  "noBlockMap = \<lparr>block = None, collection = Some [(''c'', 0)], others = []\<rparr>"

text \<open>A collection record without a value and a wrapped one.\<close>

definition collectionHeap :: heap where
  "collectionHeap =
     \<lparr>blockRecs = [],
      collectionRecs =
        [\<lparr>role = JStr ''reader'', rvalue = None\<rparr>,
         \<lparr>role = JStr ''reader'',
          rvalue = Some [(''role'', JStr ''reader''),
                         (''value'', JObj [(''name'', JStr ''Posts'')])]\<rparr>]\<rparr>"

definition collectionMap :: recordMap where
  "collectionMap = \<lparr>block = Some [], collection = Some [(''c0'', 0), (exD, 1)], others = []\<rparr>"

text \<open>A record wrapped twice.\<close>

definition doubleWrapHeap :: heap where
  "doubleWrapHeap =
     \<lparr>blockRecs =
        [\<lparr>role = JStr ''reader'',
          rvalue = Some [(''value'', JObj [(''value'', JObj [(''id'', JStr ''x'')])])]\<rparr>],
      collectionRecs = []\<rparr>"

definition doubleWrapMap :: recordMap where
  "doubleWrapMap = \<lparr>block = Some [(''k'', 0)], collection = None, others = []\<rparr>"

text \<open>
  A record map with a block under the undashed key and a wrapped block under the dashed
  key of one identifier, a parent without a type, a block record without a value and a
  wrapped collection.
\<close>

definition twiceHeap :: heap where
  "twiceHeap =
     \<lparr>blockRecs =
        [\<lparr>role = JStr ''reader'',
          rvalue = Some [(''role'', JStr ''reader''),
                         (''value'', JObj [(''id'', JStr exD), (''type'', JStr ''text'')])]\<rparr>,
         \<lparr>role = JStr ''reader'', rvalue = Some [(''content'', JArr [JStr exU, JStr ''gone''])]\<rparr>,
         \<lparr>role = JStr ''reader'', rvalue = None\<rparr>,
         \<lparr>role = JStr ''reader'', rvalue = Some [(''id'', JStr exU), (''type'', JStr ''text'')]\<rparr>],
      collectionRecs =
        [\<lparr>role = JStr ''reader'',
          rvalue = Some [(''role'', JStr ''reader''),
                         (''value'', JObj [(''name'', JStr ''Posts'')])]\<rparr>]\<rparr>"

definition twiceMap :: recordMap where
  "twiceMap =
     \<lparr>block = Some [(exU, 3), (exD, 0), (''p'', 1), (''q'', 2)], collection = Some [(''c'', 0)],
      others = [(''space'', JObj [])]\<rparr>"

section \<open>Properties of the model\<close>

subsection \<open>Objects and the steps on one record\<close>

lemma obj_get_update:
  "obj_get (AList.update k v ps) k' = (if k' = k then v else obj_get ps k')"
  by (simp add: obj_get_def update_conv')

lemma map_of_spread:
  "distinct (map fst src) \<Longrightarrow> map_of (spread target src) = map_of target ++ map_of src"
  unfolding spread_def
proof (induction src arbitrary: target)
  case Nil
  then show ?case by simp
next
  case (Cons p src)
  obtain k v where p: "p = (k, v)" by (cases p)
  from Cons.prems p have k: "k \<notin> fst ` set src" and d: "distinct (map fst src)" by auto
  have "map_of (fold (\<lambda>(k, v). AList.update k v) src (AList.update k v target)) =
        map_of (AList.update k v target) ++ map_of src"
    using Cons.IH [OF d] .
  also have "\<dots> = map_of target ++ map_of ((k, v) # src)"
  proof -
    from k have "map_of src k = None" by (simp add: map_of_eq_None_iff)
    then show ?thesis
      by (auto simp: update_conv' map_add_def fun_eq_iff split: option.splits)
  qed
  finally show ?case using p by (simp add: fun_eq_iff map_add_def)
qed

lemma inferType_nonempty: "inferType bv \<noteq> []"
  by (simp add: inferType_def)

lemma setType_truthy: "truthy (obj_get (setType bv) ''type'')"
  by (simp add: setType_def obj_get_update inferType_nonempty)

lemma sanitizeBlock_warn: "snd (sanitizeBlock key v) = []"
  by (simp add: sanitizeBlock_def Let_def setType_truthy)

lemma setFinalId_type: "obj_get (setFinalId key bv) ''type'' = obj_get bv ''type''"
  by (simp add: setFinalId_def obj_get_update)

lemma sanitizeBlock_type_truthy: "truthy (obj_get (fst (sanitizeBlock key v)) ''type'')"
  by (simp add: sanitizeBlock_def Let_def setFinalId_type setType_truthy)

lemma setFinalId_id:
  "key \<noteq> [] \<Longrightarrow> truthy (obj_get (setFinalId key bv) ''id'')"
  by (auto simp add: setFinalId_def obj_get_update)

lemma sanitizeBlock_id_truthy:
  "key \<noteq> [] \<Longrightarrow> truthy (obj_get (fst (sanitizeBlock key v)) ''id'')"
  by (simp add: sanitizeBlock_def Let_def setFinalId_id)

lemma backfillId_other: "f \<noteq> ''id'' \<Longrightarrow> obj_get (backfillId key bv) f = obj_get bv f"
  by (simp add: backfillId_def Let_def obj_get_update)

lemma setFinalId_other: "f \<noteq> ''id'' \<Longrightarrow> obj_get (setFinalId key bv) f = obj_get bv f"
  by (simp add: setFinalId_def obj_get_update)

lemma setType_other: "f \<noteq> ''type'' \<Longrightarrow> obj_get (setType bv) f = obj_get bv f"
  by (simp add: setType_def obj_get_update)

lemma inferType_backfillId: "inferType (backfillId key bv) = inferType bv"
  by (simp add: inferType_def backfillId_other)

lemma sanitizeBlock_type:
  "obj_get (fst (sanitizeBlock key v)) ''type'' =
     (if truthy (obj_get (flattenValue v) ''type'') then obj_get (flattenValue v) ''type''
      else JStr (inferType (flattenValue v)))"
  by (simp add: sanitizeBlock_def Let_def setFinalId_type setType_def obj_get_update
      backfillId_other inferType_backfillId)

lemma inferType_priority:
  "JStr (inferType b) =
     (if truthy (obj_get b ''properties'') then JStr ''text''
      else if (\<exists>xs. obj_get b ''content'' = JArr xs) then JStr ''column_list''
      else if obj_get b ''parent_table'' = JStr ''collection'' then JStr ''page''
      else JStr ''text'')"
  by (auto simp: inferType_def split: jsval.splits)

lemma map_of_flattenValue:
  assumes "hasNestedValue v" and "distinct (map fst (ownEntries (obj_get v ''value'')))"
  shows "map_of (flattenValue v) =
         (map_of v)(''value'' := None) ++ map_of (ownEntries (obj_get v ''value''))"
  using assms by (simp add: flattenValue_def map_of_spread delete_conv')

subsection \<open>The block loop\<close>

lemma lookupRec_Some: "lookupRec st a = Some r \<longleftrightarrow> a < length st \<and> st ! a = r"
  by (auto simp: lookupRec_def)

lemma hasValue_lookupRec: "hasValue st a \<longleftrightarrow> (\<exists>r v. lookupRec st a = Some r \<and> rvalue r = Some v)"
  by (auto simp: hasValue_def lookupRec_def)

lemma blockStep_eq:
  "blockStep pp (k, a) (st, out, log) =
     (if hasValue st a
      then (st[a := processed k (st ! a)], storeKeys pp k a out, log)
      else (st, out, log))"
  by (auto simp: blockStep_def hasValue_def lookupRec_def processed_def sanitizeBlock_warn
      split: option.splits)

lemma hasValue_update:
  "hasValue st a \<Longrightarrow> hasValue (st[a := processed k (st ! a)]) b = hasValue st b"
  by (cases "a = b") (auto simp: hasValue_def processed_def)

lemma map_of_storeKeys:
  "map_of (storeKeys pp k a out) c = (if writes pp k c then Some a else map_of out c)"
  by (auto simp: storeKeys_def writes_def Let_def update_conv')

lemma keys_storeKeys:
  "fst ` set (storeKeys pp k a out) = fst ` set out \<union> {c. writes pp k c}"
  by (auto simp: storeKeys_def writes_def Let_def dom_update)

lemma fold_blockStep_log:
  "snd (snd (fold (blockStep pp) es (st, out, log))) = log"
  by (induction es arbitrary: st out log) (auto simp: blockStep_eq)

lemma fold_blockStep_length:
  "length (fst (fold (blockStep pp) es (st, out, log))) = length st"
  by (induction es arbitrary: st out log) (auto simp: blockStep_eq)

lemma fold_blockStep_hasValue:
  "hasValue (fst (fold (blockStep pp) es (st, out, log))) b = hasValue st b"
proof (induction es arbitrary: st out log)
  case Nil
  then show ?case by simp
next
  case (Cons e es)
  obtain k a where e: "e = (k, a)" by (cases e)
  show ?case using e Cons.IH by (cases "hasValue st a") (simp_all add: blockStep_eq hasValue_update)
qed

lemma fold_blockStep_frame:
  "\<forall>k. (k, b) \<in> set es \<longrightarrow> \<not> hasValue st b \<Longrightarrow>
   fst (fold (blockStep pp) es (st, out, log)) ! b = st ! b"
proof (induction es arbitrary: st out log)
  case Nil
  then show ?case by simp
next
  case (Cons e es)
  obtain k a where e: "e = (k, a)" by (cases e)
  show ?case
  proof (cases "hasValue st a")
    case True
    with Cons.prems e have ab: "a \<noteq> b" by auto
    have "\<forall>k'. (k', b) \<in> set es \<longrightarrow> \<not> hasValue (st[a := processed k (st ! a)]) b"
      using Cons.prems True by (simp add: hasValue_update)
    from Cons.IH [OF this] show ?thesis using True e ab by (simp add: blockStep_eq)
  next
    case False
    then show ?thesis using e Cons by (simp add: blockStep_eq)
  qed
qed

lemma fold_blockStep_at:
  assumes "distinct (map snd es)" and "(k, a) \<in> set es" and "hasValue st a"
  shows "fst (fold (blockStep pp) es (st, out, log)) ! a = processed k (st ! a)"
  using assms
proof (induction es arbitrary: st out log)
  case Nil
  then show ?case by simp
next
  case (Cons e es)
  obtain k' a' where e: "e = (k', a')" by (cases e)
  show ?case
  proof (cases "e = (k, a)")
    case True
    with Cons.prems have notin: "\<forall>k''. (k'', a) \<in> set es \<longrightarrow> \<not> hasValue (st[a := processed k (st ! a)]) a"
      by (auto simp: image_iff hasValue_update)
    have "a < length st" using Cons.prems by (simp add: hasValue_def)
    then show ?thesis using True Cons.prems fold_blockStep_frame [OF notin]
      by (simp add: blockStep_eq)
  next
    case False
    with Cons.prems e have in_es: "(k, a) \<in> set es" and d: "distinct (map snd es)" and ne: "a' \<noteq> a"
      by (auto simp: image_iff)
    show ?thesis
    proof (cases "hasValue st a'")
      case True
      have "hasValue (st[a' := processed k' (st ! a')]) a" using Cons.prems True by (simp add: hasValue_update)
      from Cons.IH [OF d in_es this] show ?thesis using True e ne by (simp add: blockStep_eq)
    next
      case False
      then show ?thesis using e Cons.IH [OF d in_es] Cons.prems by (simp add: blockStep_eq)
    qed
  qed
qed


lemma fold_blockStep_out_frame:
  "\<forall>(k, a) \<in> set es. hasValue st a \<longrightarrow> \<not> writes pp k c \<Longrightarrow>
   map_of (fst (snd (fold (blockStep pp) es (st, out, log)))) c = map_of out c"
proof (induction es arbitrary: st out log)
  case Nil
  then show ?case by simp
next
  case (Cons e es)
  obtain k a where e: "e = (k, a)" by (cases e)
  show ?case
  proof (cases "hasValue st a")
    case True
    have "\<forall>(k', a') \<in> set es. hasValue (st[a := processed k (st ! a)]) a' \<longrightarrow> \<not> writes pp k' c"
      using Cons.prems True by (auto simp: hasValue_update)
    from Cons.IH [OF this] show ?thesis using True e Cons.prems
      by (simp add: blockStep_eq map_of_storeKeys)
  next
    case False
    then show ?thesis using e Cons by (simp add: blockStep_eq)
  qed
qed

lemma fold_blockStep_last_writer:
  assumes "hasValue st a" and "writes pp k c"
    and "\<forall>(k', a') \<in> set es2. hasValue st a' \<longrightarrow> \<not> writes pp k' c"
  shows "map_of (fst (snd (fold (blockStep pp) (es1 @ [(k, a)] @ es2) (st, out, log)))) c = Some a"
proof -
  obtain st1 out1 log1 where s1: "fold (blockStep pp) es1 (st, out, log) = (st1, out1, log1)"
    by (cases "fold (blockStep pp) es1 (st, out, log)")
  have hv: "hasValue st1 b = hasValue st b" for b
    using fold_blockStep_hasValue [of pp es1 st out log b] s1 by simp
  have "\<forall>(k', a') \<in> set es2. hasValue (st1[a := processed k (st1 ! a)]) a' \<longrightarrow> \<not> writes pp k' c"
    using assms(1,3) by (auto simp: hasValue_update hv)
  from fold_blockStep_out_frame [OF this]
  show ?thesis using s1 assms(1,2) hv by (simp add: blockStep_eq map_of_storeKeys)
qed

lemma fold_blockStep_keys:
  "fst ` set (fst (snd (fold (blockStep pp) es (st, out, log)))) =
   fst ` set out \<union> {c. \<exists>(k, a) \<in> set es. hasValue st a \<and> writes pp k c}"
proof (induction es arbitrary: st out log)
  case Nil
  then show ?case by simp
next
  case (Cons e es)
  obtain k a where e: "e = (k, a)" by (cases e)
  show ?case
  proof (cases "hasValue st a")
    case True
    then show ?thesis using e Cons.IH [of "st[a := processed k (st ! a)]" "storeKeys pp k a out" log]
      by (auto simp: blockStep_eq hasValue_update keys_storeKeys)
  next
    case False
    then show ?thesis using e Cons.IH [of st out log] by (auto simp: blockStep_eq)
  qed
qed

lemma set_update_subset: "set (AList.update k v al) \<subseteq> insert (k, v) (set al)"
  by (induction al) auto

lemma set_storeKeys: "snd ` set (storeKeys pp k a out) \<subseteq> insert a (snd ` set out)"
proof -
  have "set (storeKeys pp k a out) \<subseteq> {c. writes pp k c} \<times> {a} \<union> set out"
    using set_update_subset [of k a out]
      set_update_subset [of "normalizeKey pp k" a "AList.update k a out"]
    by (auto simp: storeKeys_def Let_def writes_def)
  then show ?thesis by auto
qed

lemma fold_blockStep_addresses:
  "snd ` set (fst (snd (fold (blockStep pp) es (st, out, log)))) \<subseteq>
   snd ` set out \<union> {a. \<exists>k. (k, a) \<in> set es \<and> hasValue st a}"
proof (induction es arbitrary: st out log)
  case Nil
  then show ?case by simp
next
  case (Cons e es)
  obtain k a where e: "e = (k, a)" by (cases e)
  show ?case
  proof (cases "hasValue st a")
    case True
    have "snd ` set (fst (snd (fold (blockStep pp) es
            (st[a := processed k (st ! a)], storeKeys pp k a out, log)))) \<subseteq>
          snd ` set (storeKeys pp k a out) \<union>
          {a'. \<exists>k'. (k', a') \<in> set es \<and> hasValue (st[a := processed k (st ! a)]) a'}"
      by (rule Cons.IH)
    also have "\<dots> \<subseteq> snd ` set out \<union> {a'. \<exists>k'. (k', a') \<in> set (e # es) \<and> hasValue st a'}"
      using set_storeKeys [of pp k a out] True e by (auto simp: hasValue_update)
    finally show ?thesis using True e by (simp add: blockStep_eq)
  next
    case False
    then show ?thesis using e Cons.IH [of st out log] by (auto simp: blockStep_eq)
  qed
qed

lemma typed_processed:
  "a < length st \<Longrightarrow> typed (st[a := processed k (st ! a)]) a"
  by (simp add: typed_def processed_def sanitizeBlock_type_truthy)

lemma fold_blockStep_typed_kept:
  "typed st b \<Longrightarrow> typed (fst (fold (blockStep pp) es (st, out, log))) b"
proof (induction es arbitrary: st out log)
  case Nil
  then show ?case by simp
next
  case (Cons e es)
  obtain k a where e: "e = (k, a)" by (cases e)
  show ?case
  proof (cases "hasValue st a")
    case True
    then have "typed (st[a := processed k (st ! a)]) b"
      using Cons.prems typed_processed [of a st k]
      by (cases "a = b") (auto simp: hasValue_def typed_def)
    from Cons.IH [OF this] show ?thesis using True e by (simp add: blockStep_eq)
  next
    case False
    then show ?thesis using e Cons by (simp add: blockStep_eq)
  qed
qed

lemma fold_blockStep_typed:
  "(k, b) \<in> set es \<Longrightarrow> hasValue st b \<Longrightarrow>
   typed (fst (fold (blockStep pp) es (st, out, log))) b"
proof (induction es arbitrary: st out log)
  case Nil
  then show ?case by simp
next
  case (Cons e es)
  obtain k' a where e: "e = (k', a)" by (cases e)
  show ?case
  proof (cases "hasValue st a")
    case True
    have hv: "hasValue (st[a := processed k' (st ! a)]) b"
      using Cons.prems True by (simp add: hasValue_update)
    show ?thesis
    proof (cases "a = b")
      case True
      have "typed (st[a := processed k' (st ! a)]) b"
        using True Cons.prems typed_processed [of a st k'] by (simp add: hasValue_def)
      then show ?thesis using \<open>hasValue st a\<close> e
        by (simp add: blockStep_eq fold_blockStep_typed_kept)
    next
      case False
      with Cons.prems e have "(k, b) \<in> set es" by auto
      from Cons.IH [OF this hv] show ?thesis using \<open>hasValue st a\<close> e by (simp add: blockStep_eq)
    qed
  next
    case False
    with Cons.prems e have "(k, b) \<in> set es" by auto
    from Cons.IH [OF this Cons.prems(2)] show ?thesis using False e by (simp add: blockStep_eq)
  qed
qed

lemma sanitizeRecordMap_block:
  assumes "block rm = Some es"
  shows "block (fst (sanitizeRecordMap pp h rm)) =
         Some (fst (snd (fold (blockStep pp) es
            (blockRecs h, [], missingSummary (snd (resolveReferences pp (blockRecs h) es))))))"
  using assms by (simp add: sanitizeRecordMap_def Let_def)

lemma sanitizeRecordMap_blockRecs:
  assumes "block rm = Some es"
  shows "blockRecs (fst (snd (sanitizeRecordMap pp h rm))) =
         fst (fold (blockStep pp) es
            (blockRecs h, [], missingSummary (snd (resolveReferences pp (blockRecs h) es))))"
  using assms by (simp add: sanitizeRecordMap_def Let_def)

lemma sanitizeRecordMap_log:
  assumes "block rm = Some es"
  shows "snd (snd (sanitizeRecordMap pp h rm)) =
         missingSummary (snd (resolveReferences pp (blockRecs h) es))"
  using assms by (simp add: sanitizeRecordMap_def Let_def fold_blockStep_log)

lemma normalizeKey_nonempty: "key \<noteq> [] \<Longrightarrow> normalizeKey pp key \<noteq> []"
  by (auto simp: normalizeKey_def split: option.splits)


lemma writes_normalized: "key \<noteq> [] \<Longrightarrow> writes pp key (normalizeKey pp key)"
  by (simp add: writes_def normalizeKey_nonempty)

lemma writes_iff: "writes pp key c \<longleftrightarrow> key \<noteq> [] \<and> (c = key \<or> c = normalizeKey pp key)"
  by (auto simp: writes_def normalizeKey_nonempty)

lemma sanitized_record_at:
  assumes "block rm = Some es" and "distinct (map snd es)"
    and "(key, a) \<in> set es" and "lookupRec (blockRecs h) a = Some r" and "rvalue r = Some v"
  shows "lookupRec (blockRecs (fst (snd (sanitizeRecordMap pp h rm)))) a =
         Some (r\<lparr>rvalue := Some (fst (sanitizeBlock key v))\<rparr>)"
proof -
  let ?res = "fold (blockStep pp) es
      (blockRecs h, [], missingSummary (snd (resolveReferences pp (blockRecs h) es)))"
  have a: "a < length (blockRecs h)" and r: "blockRecs h ! a = r"
    using assms(4) by (simp_all add: lookupRec_Some)
  then have hv: "hasValue (blockRecs h) a" using assms(5) by (simp add: hasValue_def)
  have "fst ?res ! a = processed key r"
    using fold_blockStep_at [OF assms(2,3) hv] r by simp
  moreover have "length (fst ?res) = length (blockRecs h)" by (rule fold_blockStep_length)
  ultimately show ?thesis
    using a assms(5) sanitizeRecordMap_blockRecs [OF assms(1), of pp h]
    by (simp add: lookupRec_def processed_def)
qed


subsection \<open>The reference-resolution pass\<close>

lemma fold_nested:
  "fold (\<lambda>(key, a) acc. fold f (g a) acc) entries acc =
   fold f (concat (map (\<lambda>(key, a). g a) entries)) acc"
  by (induction entries arbitrary: acc) (auto)

lemma resolveReferences_children:
  "resolveReferences pp st es =
   fold (classifyChild pp (map fst es)) (contentChildren st es) ([], [])"
  by (simp add: resolveReferences_def contentChildren_def fold_nested)

lemma set_set_add: "set (set_add x xs) = insert x (set xs)"
  by (auto simp: set_add_def)

lemma distinct_set_add: "distinct xs \<Longrightarrow> distinct (set_add x xs)"
  by (auto simp: set_add_def)

lemma classify_missing:
  "set (snd (fold (classifyChild pp keys) cs (R, M))) =
   set M \<union> {c. JStr c \<in> set cs \<and> \<not> truthyKey (resolveChild pp keys c)}"
proof (induction cs arbitrary: R M)
  case Nil
  then show ?case by simp
next
  case (Cons x cs)
  show ?case
  proof (cases x)
    case (JStr c)
    then show ?thesis using Cons.IH
      by (cases "truthyKey (resolveChild pp keys c)") (auto simp: Let_def set_set_add)
  qed (use Cons.IH in auto)
qed

lemma classify_referenced:
  "set (fst (fold (classifyChild pp keys) cs (R, M))) =
   set R \<union> {the (resolveChild pp keys c) | c. JStr c \<in> set cs \<and> truthyKey (resolveChild pp keys c)}"
proof (induction cs arbitrary: R M)
  case Nil
  then show ?case by simp
next
  case (Cons x cs)
  show ?case
  proof (cases x)
    case (JStr c)
    then show ?thesis using Cons.IH
      by (cases "truthyKey (resolveChild pp keys c)") (auto simp: Let_def set_set_add)
  qed (use Cons.IH in auto)
qed

lemma classify_distinct:
  "distinct R \<Longrightarrow> distinct M \<Longrightarrow>
   distinct (fst (fold (classifyChild pp keys) cs (R, M))) \<and>
   distinct (snd (fold (classifyChild pp keys) cs (R, M)))"
proof (induction cs arbitrary: R M)
  case Nil
  then show ?case by simp
next
  case (Cons x cs)
  show ?case
  proof (cases x)
    case (JStr c)
    then show ?thesis using Cons
      by (cases "truthyKey (resolveChild pp keys c)") (auto simp: Let_def distinct_set_add)
  qed (use Cons in auto)
qed

lemma missing_set:
  "set (snd (resolveReferences pp st es)) =
   {c. JStr c \<in> set (contentChildren st es) \<and> \<not> truthyKey (resolveChild pp (map fst es) c)}"
  by (simp add: resolveReferences_children classify_missing)

lemma referenced_set:
  "set (fst (resolveReferences pp st es)) =
   {the (resolveChild pp (map fst es) c) | c.
      JStr c \<in> set (contentChildren st es) \<and> truthyKey (resolveChild pp (map fst es) c)}"
  by (simp add: resolveReferences_children classify_referenced)

lemma missing_distinct: "distinct (snd (resolveReferences pp st es))"
  by (simp add: resolveReferences_children classify_distinct)

lemma missing_length:
  "length (snd (resolveReferences pp st es)) =
   card {c. JStr c \<in> set (contentChildren st es) \<and> \<not> truthyKey (resolveChild pp (map fst es) c)}"
  using distinct_card [OF missing_distinct, of pp st es] by (simp add: missing_set)

lemma map_of_normalizedBlockKeys:
  "map_of (normalizedBlockKeys pp keys) n =
     (if matchingKeys pp keys n = [] then None else Some (last (matchingKeys pp keys n)))"
proof (induction keys rule: rev_induct)
  case Nil
  then show ?case by (simp add: normalizedBlockKeys_def matchingKeys_def)
next
  case (snoc k keys)
  have "map_of (normalizedBlockKeys pp (keys @ [k])) n =
        (if n = k \<or> n = normalizeKey pp k then Some k else map_of (normalizedBlockKeys pp keys) n)"
    by (simp add: normalizedBlockKeys_def update_conv')
  then show ?case using snoc.IH by (auto simp: matchingKeys_def)
qed

lemma matchingKeys_subset: "set (matchingKeys pp keys n) \<subseteq> set keys"
  by (auto simp: matchingKeys_def)

lemma resolveChild_in_keys:
  assumes "resolveChild pp keys c = Some k"
  shows "k \<in> set keys"
proof -
  have "last (matchingKeys pp keys (normalizeKey pp c)) \<in> set keys"
    if "matchingKeys pp keys (normalizeKey pp c) \<noteq> []"
    using that matchingKeys_subset [of pp keys "normalizeKey pp c"] last_in_set by blast
  then show ?thesis using assms
    by (auto simp: resolveChild_def Let_def map_of_normalizedBlockKeys split: if_splits)
qed

lemma resolveChild_exact: "c \<in> set keys \<Longrightarrow> resolveChild pp keys c = Some c"
  by (simp add: resolveChild_def)



subsection \<open>The collection loop\<close>

lemma collectionStep_eq:
  "collectionStep (k, a) (st, out) =
     (if hasValue st a then (st[a := flattened (st ! a)], AList.update k a out) else (st, out))"
  by (auto simp: collectionStep_def hasValue_def lookupRec_def flattened_def split: option.splits)

lemma hasValue_flattened:
  "hasValue st a \<Longrightarrow> hasValue (st[a := flattened (st ! a)]) b = hasValue st b"
  by (cases "a = b") (auto simp: hasValue_def flattened_def)

lemma fold_collectionStep_length:
  "length (fst (fold collectionStep es (st, out))) = length st"
  by (induction es arbitrary: st out) (auto simp: collectionStep_eq)

lemma fold_collectionStep_hasValue:
  "hasValue (fst (fold collectionStep es (st, out))) b = hasValue st b"
proof (induction es arbitrary: st out)
  case Nil
  then show ?case by simp
next
  case (Cons e es)
  obtain k a where e: "e = (k, a)" by (cases e)
  show ?case using e Cons.IH
    by (cases "hasValue st a") (simp_all add: collectionStep_eq hasValue_flattened)
qed

lemma fold_collectionStep_frame:
  "\<forall>k. (k, b) \<in> set es \<longrightarrow> \<not> hasValue st b \<Longrightarrow>
   fst (fold collectionStep es (st, out)) ! b = st ! b"
proof (induction es arbitrary: st out)
  case Nil
  then show ?case by simp
next
  case (Cons e es)
  obtain k a where e: "e = (k, a)" by (cases e)
  show ?case
  proof (cases "hasValue st a")
    case True
    with Cons.prems e have ab: "a \<noteq> b" by auto
    have "\<forall>k'. (k', b) \<in> set es \<longrightarrow> \<not> hasValue (st[a := flattened (st ! a)]) b"
      using Cons.prems True by (simp add: hasValue_flattened)
    from Cons.IH [OF this] show ?thesis using True e ab by (simp add: collectionStep_eq)
  next
    case False
    then show ?thesis using e Cons by (simp add: collectionStep_eq)
  qed
qed

lemma fold_collectionStep_at:
  assumes "distinct (map snd es)" and "(k, a) \<in> set es" and "hasValue st a"
  shows "fst (fold collectionStep es (st, out)) ! a = flattened (st ! a)"
  using assms
proof (induction es arbitrary: st out)
  case Nil
  then show ?case by simp
next
  case (Cons e es)
  obtain k' a' where e: "e = (k', a')" by (cases e)
  show ?case
  proof (cases "a' = a")
    case True
    with Cons.prems e have notin: "\<forall>k''. (k'', a) \<in> set es \<longrightarrow> \<not> hasValue (st[a := flattened (st ! a)]) a"
      by (auto simp: image_iff)
    have "a < length st" using Cons.prems by (simp add: hasValue_def)
    then show ?thesis using True e Cons.prems fold_collectionStep_frame [OF notin]
      by (simp add: collectionStep_eq)
  next
    case False
    with Cons.prems e have in_es: "(k, a) \<in> set es" and d: "distinct (map snd es)"
      by auto
    show ?thesis
    proof (cases "hasValue st a'")
      case True
      have "hasValue (st[a' := flattened (st ! a')]) a"
        using Cons.prems True by (simp add: hasValue_flattened)
      from Cons.IH [OF d in_es this] show ?thesis using True e False by (simp add: collectionStep_eq)
    next
      case False
      then show ?thesis using e Cons.IH [OF d in_es] Cons.prems by (simp add: collectionStep_eq)
    qed
  qed
qed

lemma fold_collectionStep_role:
  "b < length st \<Longrightarrow> role (fst (fold collectionStep es (st, out)) ! b) = role (st ! b)"
proof (induction es arbitrary: st out)
  case Nil
  then show ?case by simp
next
  case (Cons e es)
  obtain k a where e: "e = (k, a)" by (cases e)
  show ?case
  proof (cases "hasValue st a")
    case True
    have "role (fst (fold collectionStep es (st[a := flattened (st ! a)], AList.update k a out)) ! b) =
          role (st[a := flattened (st ! a)] ! b)"
      using Cons.prems by (intro Cons.IH) simp
    also have "\<dots> = role (st ! b)"
      using Cons.prems by (cases "a = b") (simp_all add: flattened_def)
    finally show ?thesis using True e by (simp add: collectionStep_eq)
  next
    case False
    then show ?thesis using e Cons by (simp add: collectionStep_eq)
  qed
qed

lemma update_fresh: "k \<notin> fst ` set al \<Longrightarrow> AList.update k v al = al @ [(k, v)]"
  by (induction al) auto

lemma fold_collectionStep_out:
  "distinct (map fst es) \<Longrightarrow> fst ` set es \<inter> fst ` set out = {} \<Longrightarrow>
   snd (fold collectionStep es (st, out)) = out @ filter (\<lambda>(k, a). hasValue st a) es"
proof (induction es arbitrary: st out)
  case Nil
  then show ?case by simp
next
  case (Cons e es)
  obtain k a where e: "e = (k, a)" by (cases e)
  from Cons.prems e have d: "distinct (map fst es)" and k: "k \<notin> fst ` set es"
    and ko: "k \<notin> fst ` set out" and dis: "fst ` set es \<inter> fst ` set out = {}"
    by auto
  show ?case
  proof (cases "hasValue st a")
    case True
    have dis': "fst ` set es \<inter> fst ` set (out @ [(k, a)]) = {}" using dis k by auto
    have "filter (\<lambda>(k', a'). hasValue (st[a := flattened (st ! a)]) a') es =
          filter (\<lambda>(k', a'). hasValue st a') es"
      using True by (simp add: hasValue_flattened)
    then show ?thesis
      using Cons.IH [OF d dis', of "st[a := flattened (st ! a)]"] True e ko
      by (simp add: collectionStep_eq update_fresh)
  next
    case False
    then show ?thesis using Cons.IH [OF d dis, of st] e by (simp add: collectionStep_eq)
  qed
qed

lemma fold_blockStep_role:
  "b < length st \<Longrightarrow> role (fst (fold (blockStep pp) es (st, out, log)) ! b) = role (st ! b)"
proof (induction es arbitrary: st out log)
  case Nil
  then show ?case by simp
next
  case (Cons e es)
  obtain k a where e: "e = (k, a)" by (cases e)
  show ?case
  proof (cases "hasValue st a")
    case True
    have "role (fst (fold (blockStep pp) es
            (st[a := processed k (st ! a)], storeKeys pp k a out, log)) ! b) =
          role (st[a := processed k (st ! a)] ! b)"
      using Cons.prems by (intro Cons.IH) simp
    also have "\<dots> = role (st ! b)"
      using Cons.prems by (cases "a = b") (simp_all add: processed_def)
    finally show ?thesis using True e by (simp add: blockStep_eq)
  next
    case False
    then show ?thesis using e Cons by (simp add: blockStep_eq)
  qed
qed

lemma sanitizeRecordMap_None:
  "block rm = None \<Longrightarrow> sanitizeRecordMap pp h rm = (rm, h, [])"
  by (simp add: sanitizeRecordMap_def)

lemma sanitizeRecordMap_collectionRecs:
  assumes "block rm = Some es"
  shows "collectionRecs (fst (snd (sanitizeRecordMap pp h rm))) =
         (case collection rm of None \<Rightarrow> collectionRecs h
          | Some ces \<Rightarrow> fst (fold collectionStep ces (collectionRecs h, [])))"
  using assms by (simp add: sanitizeRecordMap_def Let_def split: option.splits)

lemma sanitizeRecordMap_collection:
  assumes "block rm = Some es"
  shows "collection (fst (sanitizeRecordMap pp h rm)) =
         Some (case collection rm of None \<Rightarrow> []
               | Some ces \<Rightarrow> snd (fold collectionStep ces (collectionRecs h, [])))"
  using assms by (simp add: sanitizeRecordMap_def Let_def split: option.splits)

lemma sanitizeRecordMap_others:
  "others (fst (sanitizeRecordMap pp h rm)) = others rm"
  by (simp add: sanitizeRecordMap_def Let_def split: option.splits)

subsection \<open>A second pass\<close>

lemma storeAll_Nil [simp]: "storeAll pp [] acc = acc"
  by (simp add: storeAll_def)

lemma storeAll_Cons [simp]: "storeAll pp ((c, a) # xs) acc = storeAll pp xs (storeKeys pp c a acc)"
  by (simp add: storeAll_def)

lemma storeAll_append [simp]: "storeAll pp (xs @ ys) acc = storeAll pp ys (storeAll pp xs acc)"
  by (simp add: storeAll_def)

lemma update_commute:
  "u \<in> fst ` set al \<Longrightarrow> k \<noteq> u \<Longrightarrow>
   AList.update k v (AList.update u a al) = AList.update u a (AList.update k v al)"
  by (induction al) auto

lemma update_keeps_key: "u \<in> fst ` set al \<Longrightarrow> u \<in> fst ` set (AList.update k v al)"
  by (simp add: dom_update)

lemma storeKeys_commute:
  assumes "u \<in> fst ` set acc" and "\<not> writes pp k u"
  shows "storeKeys pp k c (AList.update u a acc) = AList.update u a (storeKeys pp k c acc)"
proof (cases "k = []")
  case True
  then show ?thesis by (simp add: storeKeys_def)
next
  case False
  with assms(2) have 1: "k \<noteq> u" and 2: "normalizeKey pp k \<noteq> u"
    by (auto simp: writes_iff)
  have 3: "u \<in> fst ` set (AList.update k c acc)" using assms(1) by (rule update_keeps_key)
  show ?thesis using False
    by (simp add: storeKeys_def Let_def update_commute [OF assms(1) 1] update_commute [OF 3 2])
qed

lemma storeKeys_keeps_key: "u \<in> fst ` set acc \<Longrightarrow> u \<in> fst ` set (storeKeys pp k c acc)"
  by (simp add: keys_storeKeys)

lemma storeAll_commute:
  "u \<in> fst ` set acc \<Longrightarrow> \<forall>k \<in> fst ` set ys. \<not> writes pp k u \<Longrightarrow>
   storeAll pp ys (AList.update u a acc) = AList.update u a (storeAll pp ys acc)"
proof (induction ys arbitrary: acc)
  case Nil
  then show ?case by simp
next
  case (Cons y ys)
  obtain k c where y: "y = (k, c)" by (cases y)
  from Cons.prems y have nw: "\<not> writes pp k u" and rest: "\<forall>k \<in> fst ` set ys. \<not> writes pp k u"
    by auto
  have "storeAll pp ys (AList.update u a (storeKeys pp k c acc)) =
        AList.update u a (storeAll pp ys (storeKeys pp k c acc))"
    using storeKeys_keeps_key [OF Cons.prems(1)] rest by (rule Cons.IH)
  then show ?case using y by (simp add: storeKeys_commute [OF Cons.prems(1) nw])
qed

lemma storeAll_keys:
  "fst ` set (storeAll pp xs acc) = fst ` set acc \<union> {c. \<exists>k \<in> fst ` set xs. writes pp k c}"
proof (induction xs arbitrary: acc)
  case Nil
  then show ?case by simp
next
  case (Cons x xs)
  obtain k a where x: "x = (k, a)" by (cases x)
  show ?case using Cons.IH [of "storeKeys pp k a acc"] x
    by (auto simp: keys_storeKeys)
qed

lemma distinct_storeKeys:
  "distinct (map fst acc) \<Longrightarrow> distinct (map fst (storeKeys pp k a acc))"
  by (simp add: storeKeys_def Let_def distinct_update)

lemma distinct_storeAll:
  "distinct (map fst acc) \<Longrightarrow> distinct (map fst (storeAll pp xs acc))"
proof (induction xs arbitrary: acc)
  case Nil
  then show ?case by simp
next
  case (Cons x xs)
  obtain k a where x: "x = (k, a)" by (cases x)
  show ?case using Cons.IH [OF distinct_storeKeys [OF Cons.prems, of pp k a]] x by simp
qed

lemma storeAll_change:
  assumes "normalizeKey pp u = u" and "u \<noteq> []"
    and "\<forall>k \<in> fst ` set ys. \<not> writes pp k u"
  shows "storeAll pp (xs @ (u, a) # ys) [] = AList.update u a (storeAll pp (xs @ (u, b) # ys) [])"
proof -
  let ?accx = "storeAll pp xs []"
  have sk: "storeKeys pp u v acc = AList.update u v acc" for v acc
    using assms(1,2) by (simp add: storeKeys_def)
  have in_acc: "u \<in> fst ` set (AList.update u b ?accx)" by (simp add: dom_update)
  have "storeAll pp (xs @ (u, a) # ys) [] = storeAll pp ys (AList.update u a (AList.update u b ?accx))"
    by (simp add: sk)
  also have "\<dots> = AList.update u a (storeAll pp ys (AList.update u b ?accx))"
    using in_acc assms(3) by (rule storeAll_commute)
  also have "\<dots> = AList.update u a (storeAll pp (xs @ (u, b) # ys) [])"
    by (simp add: sk)
  finally show ?thesis .
qed

lemma update_split:
  "k \<notin> fst ` set xs \<Longrightarrow> AList.update k a (xs @ (k, b) # ys) = xs @ (k, a) # ys"
  by (induction xs) auto

lemma noLaterWriter_mono: "noLaterWriter pp keys K \<Longrightarrow> K \<subseteq> K' \<Longrightarrow> noLaterWriter pp keys K'"
  unfolding noLaterWriter_def by blast

lemma noLaterWriter_append:
  assumes "noLaterWriter pp keys K" and "K \<subseteq> K'"
    and "\<forall>u \<in> set keys. u \<notin> K' \<longrightarrow> (\<forall>k \<in> set ws. \<not> writes pp k u)"
    and "noLaterWriter pp ws K'"
  shows "noLaterWriter pp (keys @ ws) K'"
  unfolding noLaterWriter_def
proof (intro allI impI ballI)
  fix xs u ys k
  assume eq: "keys @ ws = xs @ u # ys" and u: "u \<notin> K'" and k: "k \<in> set ys"
  from eq obtain zs where
    "(keys = xs @ zs \<and> zs @ ws = u # ys) \<or> (keys @ zs = xs \<and> ws = zs @ u # ys)"
    by (auto simp: append_eq_append_conv2)
  then show "\<not> writes pp k u"
  proof
    assume a: "keys = xs @ zs \<and> zs @ ws = u # ys"
    show ?thesis
    proof (cases zs)
      case Nil
      with a have "ws = [] @ u # ys" by simp
      with assms(4) u k show ?thesis unfolding noLaterWriter_def by blast
    next
      case (Cons z zs')
      with a have keys: "keys = xs @ u # zs'" and ys: "ys = zs' @ ws" by simp_all
      from k ys have "k \<in> set zs' \<or> k \<in> set ws" by auto
      then show ?thesis
      proof
        assume "k \<in> set zs'"
        moreover have "u \<notin> K" using u assms(2) by blast
        ultimately show ?thesis using assms(1) keys unfolding noLaterWriter_def by blast
      next
        assume "k \<in> set ws"
        moreover have "u \<in> set keys" using keys by simp
        ultimately show ?thesis using assms(3) u by blast
      qed
    qed
  next
    assume "keys @ zs = xs \<and> ws = zs @ u # ys"
    with assms(4) u k show ?thesis unfolding noLaterWriter_def by blast
  qed
qed

lemma noLaterWriter_single: "noLaterWriter pp [k] K"
  unfolding noLaterWriter_def by (auto simp: Cons_eq_append_conv)

lemma noLaterWriter_pair: "d \<in> K \<Longrightarrow> noLaterWriter pp [d, n] K"
  unfolding noLaterWriter_def by (auto simp: Cons_eq_append_conv)

lemma storeAll_key_origin:
  assumes "c \<in> fst ` set (storeAll pp es [])"
    and "\<forall>k \<in> fst ` set es. normalizeKey pp (normalizeKey pp k) = normalizeKey pp k"
  shows "c \<noteq> [] \<and> (c \<in> fst ` set es \<or> normalizeKey pp c = c)"
proof -
  from assms(1) obtain k where k: "k \<in> fst ` set es" and w: "writes pp k c"
    by (auto simp: storeAll_keys)
  from w have "k \<noteq> []" and "c = k \<or> c = normalizeKey pp k" by (auto simp: writes_iff)
  then show ?thesis using k assms(2) normalizeKey_nonempty [of k pp] by auto
qed

lemma split_at_key:
  assumes "k \<in> fst ` set out" and "distinct (map fst out)"
  obtains xs b ys where "out = xs @ (k, b) # ys" and "k \<notin> fst ` set xs" and "k \<notin> fst ` set ys"
proof -
  from assms(1) obtain b where "(k, b) \<in> set out" by auto
  then obtain xs ys where out: "out = xs @ (k, b) # ys" by (auto dest: split_list)
  with assms(2) have "k \<notin> fst ` set xs" and "k \<notin> fst ` set ys" by auto
  with out show ?thesis by (rule that)
qed

lemma map_of_append_left: "map_of xs k = Some v \<Longrightarrow> map_of (xs @ ys) k = Some v"
  by (simp add: map_add_Some_iff)

lemma map_of_at_split: "k \<notin> fst ` set xs \<Longrightarrow> map_of (xs @ (k, a) # ys) k = Some a"
  by (simp add: map_add_Some_iff map_of_eq_None_iff)

lemma storeAll_stable:
  assumes "distinct (map fst es)"
    and "\<forall>k \<in> fst ` set es. normalizeKey pp (normalizeKey pp k) = normalizeKey pp k"
    and "singleAlias pp (map fst es)"
  shows "storeAll pp (storeAll pp es []) [] = storeAll pp es [] \<and>
         noLaterWriter pp (map fst (storeAll pp es [])) (fst ` set es)"
  using assms
proof (induction es rule: rev_induct)
  case Nil
  show ?case by (simp add: noLaterWriter_def)
next
  case (snoc e es)
  obtain k a where e: "e = (k, a)" by (cases e)
  let ?out = "storeAll pp es []"
  let ?K = "fst ` set es"
  from snoc.prems e have d: "distinct (map fst es)" and knew: "k \<notin> ?K"
    and h1: "\<forall>k \<in> ?K. normalizeKey pp (normalizeKey pp k) = normalizeKey pp k"
    and h1k: "normalizeKey pp (normalizeKey pp k) = normalizeKey pp k"
    and h3all: "singleAlias pp (map fst (es @ [(k, a)]))"
    by auto
  from h3all have h3: "singleAlias pp (map fst es)" by (auto simp: singleAlias_def)
  from snoc.IH [OF d h1 h3] have stab: "storeAll pp ?out [] = ?out"
    and nlw: "noLaterWriter pp (map fst ?out) ?K" by simp_all
  have dout: "distinct (map fst ?out)" by (rule distinct_storeAll) simp
  have K': "fst ` set (es @ [e]) = insert k ?K" using e by auto
  have sub: "?K \<subseteq> insert k ?K" by blast
  have origin: "c \<noteq> [] \<and> (c \<in> ?K \<or> normalizeKey pp c = c)" if "c \<in> fst ` set ?out" for c
    using that h1 by (rule storeAll_key_origin)
  have res: "storeAll pp (es @ [e]) [] = storeKeys pp k a ?out" using e by simp
  show ?case
  proof (cases "k = []")
    case True
    then have "storeKeys pp k a ?out = ?out" by (simp add: storeKeys_def)
    then show ?thesis unfolding res K' using stab noLaterWriter_mono [OF nlw sub] by simp
  next
    case kne: False
    show ?thesis
    proof (cases "normalizeKey pp k = k")
      case fixed: True
      have sk: "storeKeys pp k a ?out = AList.update k a ?out"
        using fixed kne by (simp add: storeKeys_def)
      show ?thesis
      proof (cases "k \<in> fst ` set ?out")
        case False
        then have out': "AList.update k a ?out = ?out @ [(k, a)]" by (rule update_fresh)
        have 1: "storeAll pp (?out @ [(k, a)]) [] = ?out @ [(k, a)]"
          using stab sk out' by simp
        have "\<forall>u \<in> set (map fst ?out). u \<notin> insert k ?K \<longrightarrow> (\<forall>k' \<in> set [k]. \<not> writes pp k' u)"
          using fixed by (auto simp: writes_iff)
        from noLaterWriter_append [OF nlw sub this noLaterWriter_single]
        have 2: "noLaterWriter pp (map fst (?out @ [(k, a)])) (insert k ?K)" by simp
        show ?thesis unfolding res K' sk out' using 1 2 by simp
      next
        case True
        obtain xs b ys
          where out: "?out = xs @ (k, b) # ys" and kxs: "k \<notin> fst ` set xs"
            and kys: "k \<notin> fst ` set ys"
          by (rule split_at_key [OF True dout])
        have out': "AList.update k a ?out = xs @ (k, a) # ys"
          unfolding out using kxs by (rule update_split)
        have "map fst ?out = map fst xs @ k # map fst ys" unfolding out by simp
        with nlw knew have "\<forall>k' \<in> set (map fst ys). \<not> writes pp k' k"
          unfolding noLaterWriter_def by blast
        then have "\<forall>k' \<in> fst ` set ys. \<not> writes pp k' k" by simp
        from storeAll_change [OF fixed kne this, of xs a b]
        have 1: "storeAll pp (xs @ (k, a) # ys) [] = xs @ (k, a) # ys"
          using stab out out' by simp
        have "map fst (xs @ (k, a) # ys) = map fst ?out" unfolding out by simp
        then have 2: "noLaterWriter pp (map fst (xs @ (k, a) # ys)) (insert k ?K)"
          using noLaterWriter_mono [OF nlw sub] by simp
        show ?thesis unfolding res K' sk out' using 1 2 by simp
      qed
    next
      case nonfixed: False
      let ?n = "normalizeKey pp k"
      have nne: "?n \<noteq> []" using kne by (rule normalizeKey_nonempty)
      have kout: "k \<notin> fst ` set ?out"
        using origin [of k] knew nonfixed by blast
      have upd_k: "AList.update k a ?out = ?out @ [(k, a)]" using kout by (rule update_fresh)
      have sk: "storeKeys pp k a ?out = AList.update ?n a (?out @ [(k, a)])"
        using kne nonfixed nne by (simp add: storeKeys_def Let_def upd_k)
      have skn: "storeKeys pp ?n c acc = AList.update ?n c acc" for c acc
        using h1k nne by (simp add: storeKeys_def)
      have skk: "storeKeys pp k c acc = AList.update ?n c (AList.update k c acc)" for c acc
        using kne nonfixed nne by (simp add: storeKeys_def Let_def)
      show ?thesis
      proof (cases "?n \<in> fst ` set ?out")
        case False
        then have "?n \<notin> fst ` set (?out @ [(k, a)])" using nonfixed by auto
        then have out': "AList.update ?n a (?out @ [(k, a)]) = ?out @ [(k, a), (?n, a)]"
          by (simp add: update_fresh)
        have "?n \<notin> fst ` set (?out @ [(k, a)])" using False nonfixed by auto
        then have "map_of ((?out @ [(k, a)]) @ (?n, a) # []) ?n = Some a" by (rule map_of_at_split)
        then have m: "map_of (?out @ [(k, a), (?n, a)]) ?n = Some a" by simp
        have "storeAll pp (?out @ [(k, a), (?n, a)]) [] =
              AList.update ?n a (storeKeys pp k a ?out)"
          using stab by (simp add: skn)
        also have "\<dots> = AList.update ?n a (?out @ [(k, a), (?n, a)])"
          by (simp only: sk out')
        also have "\<dots> = ?out @ [(k, a), (?n, a)]" using m by (rule update_triv)
        finally have 1: "storeAll pp (?out @ [(k, a), (?n, a)]) [] = ?out @ [(k, a), (?n, a)]" .
        have "\<forall>u \<in> set (map fst ?out). u \<notin> insert k ?K \<longrightarrow>
                (\<forall>k' \<in> set [k, ?n]. \<not> writes pp k' u)"
        proof (intro ballI impI notI)
          fix u k'
          assume u: "u \<in> set (map fst ?out)" and uk: "u \<notin> insert k ?K"
            and k': "k' \<in> set [k, ?n]" and w: "writes pp k' u"
          from k' w h1k have "u = k \<or> u = ?n" by (auto simp: writes_iff)
          moreover from u have "u \<in> fst ` set ?out" by simp
          ultimately show False using uk False by blast
        qed
        from noLaterWriter_append [OF nlw sub this noLaterWriter_pair]
        have 2: "noLaterWriter pp (map fst (?out @ [(k, a), (?n, a)])) (insert k ?K)" by simp
        show ?thesis unfolding res K' sk out' using 1 2 by simp
      next
        case True
        obtain xs b ys
          where out: "?out = xs @ (?n, b) # ys" and nxs: "?n \<notin> fst ` set xs"
            and nys: "?n \<notin> fst ` set ys"
          by (rule split_at_key [OF True dout])
        have nK: "?n \<in> ?K"
        proof (rule ccontr)
          assume nK: "?n \<notin> ?K"
          from True obtain k' where k': "k' \<in> ?K" and w: "writes pp k' ?n"
            by (auto simp: storeAll_keys)
          from w have "?n = k' \<or> ?n = normalizeKey pp k'" by (simp add: writes_iff)
          moreover from nK k' have "k' \<noteq> ?n" by blast
          ultimately have eqn: "normalizeKey pp k' = ?n" and "k' \<noteq> ?n" by auto
          then have "normalizeKey pp k' \<noteq> k'" by simp
          moreover have "k' \<in> set (map fst (es @ [(k, a)]))" "k \<in> set (map fst (es @ [(k, a)]))"
            using k' by auto
          ultimately have "k' = k" using h3all eqn nonfixed unfolding singleAlias_def by blast
          with k' knew show False by simp
        qed
        have nw: "\<forall>k' \<in> fst ` set ys. \<not> writes pp k' ?n"
        proof (intro ballI notI)
          fix k'
          assume k'ys: "k' \<in> fst ` set ys" and w: "writes pp k' ?n"
          have k'out: "k' \<in> fst ` set ?out" using k'ys unfolding out by auto
          from k'ys nys have k'n: "k' \<noteq> ?n" by blast
          from w have "?n = k' \<or> ?n = normalizeKey pp k'" by (simp add: writes_iff)
          with k'n have eqn: "normalizeKey pp k' = ?n" and nf: "normalizeKey pp k' \<noteq> k'"
            by auto
          from origin [OF k'out] nf have "k' \<in> ?K" by blast
          then have "k' \<in> set (map fst (es @ [(k, a)]))" "k \<in> set (map fst (es @ [(k, a)]))"
            by auto
          then have "k' = k" using h3all eqn nonfixed nf unfolding singleAlias_def by blast
          with \<open>k' \<in> ?K\<close> knew show False by simp
        qed
        let ?out2 = "xs @ (?n, a) # ys"
        have out': "AList.update ?n a (?out @ [(k, a)]) = ?out2 @ [(k, a)]"
          unfolding out using update_split [OF nxs, of a b "ys @ [(k, a)]"] by simp
        have upd_n: "AList.update ?n a ?out = ?out2" unfolding out using nxs by (rule update_split)
        have st2: "storeAll pp ?out2 [] = ?out2"
          using storeAll_change [OF h1k nne nw, of xs a b] stab out upd_n by simp
        have kout2: "k \<notin> fst ` set ?out2" using kout unfolding out by auto
        have "map_of ?out2 ?n = Some a" using nxs by (rule map_of_at_split)
        then have m: "map_of (?out2 @ [(k, a)]) ?n = Some a" by (rule map_of_append_left)
        have "storeAll pp (?out2 @ [(k, a)]) [] = storeKeys pp k a ?out2"
          using st2 by simp
        also have "\<dots> = AList.update ?n a (?out2 @ [(k, a)])"
          by (simp add: skk update_fresh [OF kout2])
        also have "\<dots> = ?out2 @ [(k, a)]" using m by (rule update_triv)
        finally have 1: "storeAll pp (?out2 @ [(k, a)]) [] = ?out2 @ [(k, a)]" .
        have keys2: "map fst (?out2 @ [(k, a)]) = map fst ?out @ [k]" unfolding out by simp
        have "\<forall>u \<in> set (map fst ?out). u \<notin> insert k ?K \<longrightarrow> (\<forall>k' \<in> set [k]. \<not> writes pp k' u)"
        proof (intro ballI impI notI)
          fix u k'
          assume uk: "u \<notin> insert k ?K" and k': "k' \<in> set [k]" and w: "writes pp k' u"
          from k' w have "u = k \<or> u = ?n" by (auto simp: writes_iff)
          then show False using uk nK by blast
        qed
        from noLaterWriter_append [OF nlw sub this noLaterWriter_single]
        have 2: "noLaterWriter pp (map fst (?out2 @ [(k, a)])) (insert k ?K)"
          unfolding keys2 .
        show ?thesis unfolding res K' sk out' using 1 2 by simp
      qed
    qed
  qed
qed

lemma fold_blockStep_storeAll:
  "fst (snd (fold (blockStep pp) es (st, out, log))) =
   storeAll pp (filter (\<lambda>(k, a). hasValue st a) es) out"
proof (induction es arbitrary: st out log)
  case Nil
  then show ?case by simp
next
  case (Cons e es)
  obtain k a where e: "e = (k, a)" by (cases e)
  show ?case
  proof (cases "hasValue st a")
    case True
    have "filter (\<lambda>(k', a'). hasValue (st[a := processed k (st ! a)]) a') es =
          filter (\<lambda>(k', a'). hasValue st a') es"
      using True by (simp add: hasValue_update)
    then show ?thesis using True e Cons.IH [of "st[a := processed k (st ! a)]"]
      by (simp add: blockStep_eq)
  next
    case False
    then show ?thesis using e Cons.IH [of st] by (simp add: blockStep_eq)
  qed
qed

lemma storeAll_entry:
  "(c, a) \<in> set (storeAll pp xs acc) \<Longrightarrow>
   (c, a) \<in> set acc \<or> (\<exists>k. (k, a) \<in> set xs \<and> writes pp k c)"
proof (induction xs arbitrary: acc)
  case Nil
  then show ?case by simp
next
  case (Cons x xs)
  obtain k b where x: "x = (k, b)" by (cases x)
  from Cons.prems x have "(c, a) \<in> set (storeAll pp xs (storeKeys pp k b acc))" by simp
  from Cons.IH [OF this] show ?case
  proof
    assume "(c, a) \<in> set (storeKeys pp k b acc)"
    moreover have "set (storeKeys pp k b acc) \<subseteq> {c. writes pp k c} \<times> {b} \<union> set acc"
      using set_update_subset [of k b acc]
        set_update_subset [of "normalizeKey pp k" b "AList.update k b acc"]
      by (auto simp: storeKeys_def Let_def writes_def)
    ultimately have "(c, a) \<in> set acc \<or> (writes pp k c \<and> a = b)" by blast
    then show ?thesis using x by auto
  next
    assume "\<exists>k. (k, a) \<in> set xs \<and> writes pp k c"
    then show ?thesis by auto
  qed
qed

lemma singleAlias_subset:
  "singleAlias pp keys \<Longrightarrow> set keys' \<subseteq> set keys \<Longrightarrow> singleAlias pp keys'"
  unfolding singleAlias_def by blast

lemma singleAlias_filter: "singleAlias pp (map fst es) \<Longrightarrow> singleAlias pp (map fst (filter P es))"
  by (erule singleAlias_subset) auto

lemma hasNestedValue_steps:
  "hasNestedValue (setFinalId key (setType (backfillId key b))) = hasNestedValue b"
  by (simp add: hasNestedValue_def setFinalId_other setType_other backfillId_other)

lemma sanitizeBlock_clean:
  assumes "\<not> hasNestedValue b" and "truthy (obj_get b ''id'')" and "truthy (obj_get b ''type'')"
  shows "fst (sanitizeBlock c b) = b"
proof -
  have "obj_get b ''id'' \<noteq> JStr []" using assms(2) by auto
  then show ?thesis using assms
    by (simp add: sanitizeBlock_def Let_def flattenValue_def backfillId_def setType_def setFinalId_def)
qed

lemma processed_twice:
  assumes "rvalue r = Some v" and "\<not> hasNestedValue (flattenValue v)" and "k \<noteq> []"
  shows "processed c (processed k r) = processed k r"
proof -
  let ?b = "fst (sanitizeBlock k v)"
  have "\<not> hasNestedValue ?b"
    using assms(2) by (simp add: sanitizeBlock_def Let_def hasNestedValue_steps)
  then have "fst (sanitizeBlock c ?b) = ?b"
    using sanitizeBlock_id_truthy [OF assms(3)] sanitizeBlock_type_truthy
    by (intro sanitizeBlock_clean) simp_all
  then show ?thesis using assms(1) by (simp add: processed_def)
qed

lemma fold_blockStep_clean:
  "\<forall>(c, a) \<in> set xs. hasValue st a \<and> processed c (st ! a) = st ! a \<Longrightarrow>
   fold (blockStep pp) xs (st, acc, log) = (st, storeAll pp xs acc, log)"
proof (induction xs arbitrary: acc)
  case Nil
  then show ?case by simp
next
  case (Cons x xs)
  obtain c a where x: "x = (c, a)" by (cases x)
  from Cons.prems x have hv: "hasValue st a" and p: "processed c (st ! a) = st ! a" by auto
  have "blockStep pp (c, a) (st, acc, log) = (st, storeKeys pp c a acc, log)"
    using hv p by (simp add: blockStep_eq)
  then show ?case using Cons x by simp
qed

lemma block_pass_twice:
  assumes "distinct (map fst es)" and "distinct (map snd es)"
    and "\<forall>(k, a) \<in> set es. normalizeKey pp (normalizeKey pp k) = normalizeKey pp k"
    and "singleAlias pp (map fst es)"
    and "wrappedOnce st es"
    and "fold (blockStep pp) es (st, [], L) = (st1, out1, L1)"
  shows "fold (blockStep pp) out1 (st1, [], L2) = (st1, out1, L2)"
proof -
  let ?es = "filter (\<lambda>(k, a). hasValue st a) es"
  have out1: "out1 = storeAll pp ?es []"
    using fold_blockStep_storeAll [of pp es st "[]" L] assms(6) by simp
  have st1: "st1 = fst (fold (blockStep pp) es (st, [], L))" using assms(6) by simp
  have "distinct (map fst ?es)" using assms(1) by (simp add: distinct_map_filter)
  moreover have "\<forall>k \<in> fst ` set ?es. normalizeKey pp (normalizeKey pp k) = normalizeKey pp k"
    using assms(3) by auto
  moreover have "singleAlias pp (map fst ?es)" using assms(4) by (rule singleAlias_filter)
  ultimately have stable: "storeAll pp out1 [] = out1"
    unfolding out1 using storeAll_stable by blast
  have clean: "\<forall>(c, a) \<in> set out1. hasValue st1 a \<and> processed c (st1 ! a) = st1 ! a"
  proof (clarify, intro conjI)
    fix c a
    assume "(c, a) \<in> set out1"
    then obtain k where "(k, a) \<in> set ?es" and w: "writes pp k c"
      using storeAll_entry [of c a pp ?es "[]"] out1 by auto
    then have k: "(k, a) \<in> set es" and hv: "hasValue st a" by auto
    from w have ne: "k \<noteq> []" by (simp add: writes_def)
    show "hasValue st1 a" unfolding st1 using hv by (simp add: fold_blockStep_hasValue)
    have at: "st1 ! a = processed k (st ! a)"
      unfolding st1 by (rule fold_blockStep_at [OF assms(2) k hv])
    from hv obtain v where v: "rvalue (st ! a) = Some v" and a: "a < length st"
      by (auto simp: hasValue_def)
    have "\<not> hasNestedValue (flattenValue v)"
      using assms(5) k v a by (auto simp: wrappedOnce_def lookupRec_def)
    from processed_twice [OF v this ne]
    show "processed c (st1 ! a) = st1 ! a" unfolding at .
  qed
  have "fold (blockStep pp) out1 (st1, [], L2) = (st1, storeAll pp out1 [], L2)"
    using clean by (rule fold_blockStep_clean)
  then show ?thesis using stable by simp
qed

lemma fold_collectionStep_clean:
  "\<forall>(k, a) \<in> set xs. hasValue st a \<and> flattened (st ! a) = st ! a \<Longrightarrow>
   fst (fold collectionStep xs (st, out)) = st"
proof (induction xs arbitrary: out)
  case Nil
  then show ?case by simp
next
  case (Cons x xs)
  obtain k a where x: "x = (k, a)" by (cases x)
  from Cons.prems x have "collectionStep (k, a) (st, out) = (st, AList.update k a out)"
    by (simp add: collectionStep_eq)
  then show ?case using Cons x by simp
qed

lemma flattened_twice:
  assumes "rvalue r = Some v" and "\<not> hasNestedValue (flattenValue v)"
  shows "flattened (flattened r) = flattened r"
  using assms by (simp add: flattened_def flattenValue_def)

lemma sanitizeRecordMap_Some:
  assumes "block rm = Some es"
  shows "sanitizeRecordMap pp h rm =
    (rm\<lparr>block := Some (fst (snd (fold (blockStep pp) es
            (blockRecs h, [], missingSummary (snd (resolveReferences pp (blockRecs h) es)))))),
        collection := Some (case collection rm of None \<Rightarrow> []
               | Some ces \<Rightarrow> snd (fold collectionStep ces (collectionRecs h, [])))\<rparr>,
     \<lparr>blockRecs = fst (fold (blockStep pp) es
            (blockRecs h, [], missingSummary (snd (resolveReferences pp (blockRecs h) es)))),
      collectionRecs = (case collection rm of None \<Rightarrow> collectionRecs h
          | Some ces \<Rightarrow> fst (fold collectionStep ces (collectionRecs h, [])))\<rparr>,
     missingSummary (snd (resolveReferences pp (blockRecs h) es)))"
  using assms by (simp add: sanitizeRecordMap_def Let_def fold_blockStep_log split: option.splits)

lemma collection_pass_twice:
  assumes "distinct (map fst ces)" and "distinct (map snd ces)"
    and "wrappedOnce st ces"
    and "fold collectionStep ces (st, []) = (st1, out1)"
  shows "fold collectionStep out1 (st1, []) = (st1, out1)"
proof -
  have out1: "out1 = filter (\<lambda>(k, a). hasValue st a) ces"
    using fold_collectionStep_out [OF assms(1), of "[]" st] assms(4) by simp
  have st1: "st1 = fst (fold collectionStep ces (st, []))" using assms(4) by simp
  have hv1: "hasValue st1 b = hasValue st b" for b
    unfolding st1 by (rule fold_collectionStep_hasValue)
  have clean: "\<forall>(k, a) \<in> set out1. hasValue st1 a \<and> flattened (st1 ! a) = st1 ! a"
  proof (clarify, intro conjI)
    fix k a
    assume "(k, a) \<in> set out1"
    then have k: "(k, a) \<in> set ces" and hv: "hasValue st a" using out1 by auto
    show "hasValue st1 a" using hv by (simp add: hv1)
    have at: "st1 ! a = flattened (st ! a)"
      unfolding st1 by (rule fold_collectionStep_at [OF assms(2) k hv])
    from hv obtain v where v: "rvalue (st ! a) = Some v" and a: "a < length st"
      by (auto simp: hasValue_def)
    have "\<not> hasNestedValue (flattenValue v)"
      using assms(3) k v a by (auto simp: wrappedOnce_def lookupRec_def)
    from flattened_twice [OF v this]
    show "flattened (st1 ! a) = st1 ! a" unfolding at .
  qed
  have 1: "fst (fold collectionStep out1 (st1, [])) = st1"
    using clean by (rule fold_collectionStep_clean)
  have d1: "distinct (map fst out1)" unfolding out1 using assms(1) by (simp add: distinct_map_filter)
  have "filter (\<lambda>(k, a). hasValue st1 a) out1 = out1"
    unfolding out1 by (simp add: hv1)
  then have 2: "snd (fold collectionStep out1 (st1, [])) = out1"
    using fold_collectionStep_out [OF d1, of "[]" st1] by simp
  show ?thesis using 1 2 by (simp add: prod_eq_iff)
qed

subsection \<open>The key normalizer of the spec\<close>

text \<open>
  With the key normalizer as the spec describes it, normalising twice is normalising
  once, and a canonical form has one dashed spelling, whatever the keys are.
\<close>

lemma dash_not_hex: "\<not> isHexLower CHR ''-''"
  by (simp add: isHexLower_def)

lemma stripDashes_hex: "list_all isHexLower xs \<Longrightarrow> stripDashes xs = xs"
  unfolding stripDashes_def
  by (induction xs) (auto simp: dash_not_hex)

lemma stripDashes_append: "stripDashes (xs @ ys) = stripDashes xs @ stripDashes ys"
  by (simp add: stripDashes_def)

lemma stripDashes_dash: "stripDashes (CHR ''-'' # xs) = stripDashes xs"
  by (simp add: stripDashes_def)

lemma dashed_parts:
  assumes "length s = 36"
  shows "s = take 8 s @ s ! 8 # take 4 (drop 9 s) @ s ! 13 # take 4 (drop 14 s) @
             s ! 18 # take 4 (drop 19 s) @ s ! 23 # drop 24 s"
proof -
  have 1: "s = take 8 s @ drop 8 s" by simp
  have 2: "drop 8 s = s ! 8 # drop 9 s" using Cons_nth_drop_Suc [of 8 s] assms by simp
  have 3: "drop 9 s = take 4 (drop 9 s) @ drop 13 s"
    using append_take_drop_id [of 4 "drop 9 s"] by simp
  have 4: "drop 13 s = s ! 13 # drop 14 s" using Cons_nth_drop_Suc [of 13 s] assms by simp
  have 5: "drop 14 s = take 4 (drop 14 s) @ drop 18 s"
    using append_take_drop_id [of 4 "drop 14 s"] by simp
  have 6: "drop 18 s = s ! 18 # drop 19 s" using Cons_nth_drop_Suc [of 18 s] assms by simp
  have 7: "drop 19 s = take 4 (drop 19 s) @ drop 23 s"
    using append_take_drop_id [of 4 "drop 19 s"] by simp
  have 8: "drop 23 s = s ! 23 # drop 24 s" using Cons_nth_drop_Suc [of 23 s] assms by simp
  show ?thesis
    using 1 2 3 4 5 6 7 8 by metis
qed

lemma stripDashes_dashed:
  assumes "isDashedId s"
  shows "stripDashes s =
         take 8 s @ take 4 (drop 9 s) @ take 4 (drop 14 s) @ take 4 (drop 19 s) @ drop 24 s"
proof -
  from assms have len: "length s = 36"
    and h: "list_all isHexLower (take 8 s)" "list_all isHexLower (take 4 (drop 9 s))"
      "list_all isHexLower (take 4 (drop 14 s))" "list_all isHexLower (take 4 (drop 19 s))"
      "list_all isHexLower (drop 24 s)"
    and d: "s ! 8 = CHR ''-''" "s ! 13 = CHR ''-''" "s ! 18 = CHR ''-''" "s ! 23 = CHR ''-''"
    by (simp_all add: isDashedId_def)
  have "stripDashes s = stripDashes (take 8 s @ CHR ''-'' # take 4 (drop 9 s) @ CHR ''-'' #
      take 4 (drop 14 s) @ CHR ''-'' # take 4 (drop 19 s) @ CHR ''-'' # drop 24 s)"
    using dashed_parts [OF len] d by simp
  also have "\<dots> = take 8 s @ take 4 (drop 9 s) @ take 4 (drop 14 s) @ take 4 (drop 19 s) @ drop 24 s"
    by (simp only: stripDashes_append stripDashes_dash stripDashes_hex [OF h(1)]
        stripDashes_hex [OF h(2)] stripDashes_hex [OF h(3)] stripDashes_hex [OF h(4)]
        stripDashes_hex [OF h(5)] append_Cons [symmetric])
  finally show ?thesis .
qed

lemma stripDashes_undashed:
  assumes "isDashedId s"
  shows "isUndashedId (stripDashes s)"
proof -
  from assms have len: "length s = 36"
    and h: "list_all isHexLower (take 8 s)" "list_all isHexLower (take 4 (drop 9 s))"
      "list_all isHexLower (take 4 (drop 14 s))" "list_all isHexLower (take 4 (drop 19 s))"
      "list_all isHexLower (drop 24 s)"
    by (simp_all add: isDashedId_def)
  show ?thesis
    unfolding stripDashes_dashed [OF assms] isUndashedId_def using len h by simp
qed

lemma addDashes_stripDashes:
  assumes "isDashedId s"
  shows "addDashes (stripDashes s) = s"
proof -
  from assms have len: "length s = 36"
    and d: "s ! 8 = CHR ''-''" "s ! 13 = CHR ''-''" "s ! 18 = CHR ''-''" "s ! 23 = CHR ''-''"
    by (simp_all add: isDashedId_def)
  have "addDashes (take 8 s @ take 4 (drop 9 s) @ take 4 (drop 14 s) @ take 4 (drop 19 s) @ drop 24 s) =
        take 8 s @ CHR ''-'' # take 4 (drop 9 s) @ CHR ''-'' #
        take 4 (drop 14 s) @ CHR ''-'' # take 4 (drop 19 s) @ CHR ''-'' # drop 24 s"
    using len by (simp add: addDashes_def)
  also have "\<dots> = s" using dashed_parts [OF len] d by simp
  finally show ?thesis by (simp add: stripDashes_dashed [OF assms])
qed

lemma normalizeKey_parsePageId:
  "normalizeKey parsePageId k =
     (if isUndashedId k then k else if isDashedId k then stripDashes k else k)"
proof -
  have "stripDashes k \<noteq> []" if "isDashedId k"
    using stripDashes_undashed [OF that] by (auto simp: isUndashedId_def)
  then show ?thesis by (auto simp: normalizeKey_def parsePageId_def)
qed

lemma normalizeKey_parsePageId_twice:
  "normalizeKey parsePageId (normalizeKey parsePageId k) = normalizeKey parsePageId k"
  by (simp add: normalizeKey_parsePageId stripDashes_undashed)

lemma singleAlias_parsePageId: "singleAlias parsePageId keys"
  unfolding singleAlias_def
proof (intro ballI impI)
  fix k1 k2
  assume eq: "normalizeKey parsePageId k1 = normalizeKey parsePageId k2"
  show "k1 = k2 \<or> normalizeKey parsePageId k1 = k1 \<or> normalizeKey parsePageId k2 = k2"
  proof (rule ccontr)
    assume "\<not> ?thesis"
    then have n1: "normalizeKey parsePageId k1 \<noteq> k1" and n2: "normalizeKey parsePageId k2 \<noteq> k2"
      and ne: "k1 \<noteq> k2" by simp_all
    from n1 have d1: "isDashedId k1" and s1: "normalizeKey parsePageId k1 = stripDashes k1"
      by (auto simp: normalizeKey_parsePageId split: if_splits)
    from n2 have d2: "isDashedId k2" and s2: "normalizeKey parsePageId k2 = stripDashes k2"
      by (auto simp: normalizeKey_parsePageId split: if_splits)
    from eq s1 s2 have "addDashes (stripDashes k1) = addDashes (stripDashes k2)" by simp
    then have "k1 = k2" by (simp add: addDashes_stripDashes d1 d2)
    with ne show False by simp
  qed
qed

section \<open>The claims\<close>

subsection \<open>Records kept under both keys\<close>




subsection \<open>Idempotence\<close>

text \<open>
  Claim C2, as stated, fails for a record that is wrapped twice. The first call flattens
  one level and backfills id and type beside the remaining \<open>value\<close> field; the second
  call flattens again, and the id of the inner block replaces the backfilled one. The
  flattener applied twice differs from the flattener applied once on the same value.
\<close>

theorem second_pass_differs:
  "blockRecs (fst (snd (sanitizeRecordMap parsePageId doubleWrapHeap doubleWrapMap))) =
     [\<lparr>role = JStr ''reader'',
       rvalue = Some [(''value'', JObj [(''id'', JStr ''x'')]), (''id'', JStr ''k''),
                      (''type'', JStr ''text'')]\<rparr>] \<and>
   blockRecs (fst (snd (sanitizeRecordMap parsePageId
       (fst (snd (sanitizeRecordMap parsePageId doubleWrapHeap doubleWrapMap)))
       (fst (sanitizeRecordMap parsePageId doubleWrapHeap doubleWrapMap))))) =
     [\<lparr>role = JStr ''reader'',
       rvalue = Some [(''id'', JStr ''x''), (''type'', JStr ''text'')]\<rparr>] \<and>
   flattenValue (flattenValue [(''value'', JObj [(''value'', JObj [(''id'', JStr ''x'')])])]) \<noteq>
     flattenValue [(''value'', JObj [(''value'', JObj [(''id'', JStr ''x'')])])]"
  by code_simp

text \<open>
  Claim C2, amended. Let no record be wrapped twice and no two keys hold the same record
  object; let the keys of each mapping be different, the canonical form of a block key
  be its own canonical form, and no two different block keys that are not canonical
  have the same canonical form. Then a second call on the result of the first returns
  the same record map, key for key in the same order, and leaves the heap as the first
  call left it. The flattener applied twice is the flattener applied once on every
  value that is not wrapped twice. The two conditions on the canonical forms hold for
  all keys when the key normalizer is the one the spec describes
  (\<open>normalizeKey_parsePageId_twice\<close>, \<open>singleAlias_parsePageId\<close>).
\<close>

theorem sanitize_idempotent:
  assumes "\<forall>es. block rm = Some es \<longrightarrow>
             distinct (map fst es) \<and> distinct (map snd es) \<and>
             (\<forall>(k, a) \<in> set es. normalizeKey pp (normalizeKey pp k) = normalizeKey pp k) \<and>
             singleAlias pp (map fst es) \<and>
             wrappedOnce (blockRecs h) es"
    and "\<forall>ces. collection rm = Some ces \<longrightarrow>
             distinct (map fst ces) \<and> distinct (map snd ces) \<and> wrappedOnce (collectionRecs h) ces"
  shows "fst (sanitizeRecordMap pp (fst (snd (sanitizeRecordMap pp h rm)))
                                  (fst (sanitizeRecordMap pp h rm))) =
           fst (sanitizeRecordMap pp h rm) \<and>
         fst (snd (sanitizeRecordMap pp (fst (snd (sanitizeRecordMap pp h rm)))
                                       (fst (sanitizeRecordMap pp h rm)))) =
           fst (snd (sanitizeRecordMap pp h rm)) \<and>
         (\<forall>v. \<not> hasNestedValue (flattenValue v) \<longrightarrow>
            flattenValue (flattenValue v) = flattenValue v)"
proof -
  have flat: "flattenValue (flattenValue v) = flattenValue v"
    if "\<not> hasNestedValue (flattenValue v)" for v
    using that by (simp add: flattenValue_def)
  show ?thesis
  proof (cases "block rm")
    case None
    then show ?thesis using flat by (simp add: sanitizeRecordMap_None)
  next
    case (Some es)
    let ?L = "missingSummary (snd (resolveReferences pp (blockRecs h) es))"
    obtain st1 out1 L1 where b1: "fold (blockStep pp) es (blockRecs h, [], ?L) = (st1, out1, L1)"
      by (cases "fold (blockStep pp) es (blockRecs h, [], ?L)")
    obtain cst1 outc1 where c1:
      "(case collection rm of None \<Rightarrow> (collectionRecs h, [])
        | Some ces \<Rightarrow> fold collectionStep ces (collectionRecs h, [])) = (cst1, outc1)"
      by (cases "case collection rm of None \<Rightarrow> (collectionRecs h, [])
        | Some ces \<Rightarrow> fold collectionStep ces (collectionRecs h, [])")
    have S1: "sanitizeRecordMap pp h rm =
        (rm\<lparr>block := Some out1, collection := Some outc1\<rparr>,
         \<lparr>blockRecs = st1, collectionRecs = cst1\<rparr>, ?L)"
      using b1 c1 by (simp add: sanitizeRecordMap_Some [OF Some] split: option.splits)
    from assms(1) Some have h0: "distinct (map fst es)" and h1: "distinct (map snd es)"
      and h2: "\<forall>(k, a) \<in> set es. normalizeKey pp (normalizeKey pp k) = normalizeKey pp k"
      and h3: "singleAlias pp (map fst es)"
      and h4: "wrappedOnce (blockRecs h) es" by simp_all
    have b2: "fold (blockStep pp) out1 (st1, [], L2) = (st1, out1, L2)" for L2
      by (rule block_pass_twice [OF h0 h1 h2 h3 h4 b1])
    have c2: "fold collectionStep outc1 (cst1, []) = (cst1, outc1)"
    proof (cases "collection rm")
      case None
      then show ?thesis using c1 by auto
    next
      case (Some ces)
      with assms(2) have "distinct (map fst ces)" "distinct (map snd ces)"
        "wrappedOnce (collectionRecs h) ces" by simp_all
      moreover have "fold collectionStep ces (collectionRecs h, []) = (cst1, outc1)"
        using c1 Some by simp
      ultimately show ?thesis by (rule collection_pass_twice)
    qed
    have "sanitizeRecordMap pp \<lparr>blockRecs = st1, collectionRecs = cst1\<rparr>
            (rm\<lparr>block := Some out1, collection := Some outc1\<rparr>) =
          (rm\<lparr>block := Some out1, collection := Some outc1\<rparr>,
           \<lparr>blockRecs = st1, collectionRecs = cst1\<rparr>,
           missingSummary (snd (resolveReferences pp st1 out1)))"
      using b2 c2 by (simp add: sanitizeRecordMap_Some [of _ out1])
    then show ?thesis using flat by (simp add: S1)
  qed
qed

theorem sanitize_idempotent_witness:
  "block (fst (sanitizeRecordMap parsePageId twiceHeap twiceMap)) =
     Some [(exU, 0), (exD, 0), (''p'', 1)] \<and>
   fst (sanitizeRecordMap parsePageId (fst (snd (sanitizeRecordMap parsePageId twiceHeap twiceMap)))
                                  (fst (sanitizeRecordMap parsePageId twiceHeap twiceMap))) =
     fst (sanitizeRecordMap parsePageId twiceHeap twiceMap) \<and>
   fst (snd (sanitizeRecordMap parsePageId (fst (snd (sanitizeRecordMap parsePageId twiceHeap twiceMap)))
                                       (fst (sanitizeRecordMap parsePageId twiceHeap twiceMap)))) =
     fst (snd (sanitizeRecordMap parsePageId twiceHeap twiceMap))"
proof -
  let ?es = "[(exU, 3::nat), (exD, 0), (''p'', 1), (''q'', 2)]"
  let ?ces = "[(''c'', 0::nat)]"
  have b: "block twiceMap = Some ?es" and c: "collection twiceMap = Some ?ces"
    by (simp_all add: twiceMap_def)
  have 0: "distinct (map fst ?es)" by code_simp
  have 1: "distinct (map snd ?es)" by simp
  have 2: "\<forall>(k, a) \<in> set ?es.
      normalizeKey parsePageId (normalizeKey parsePageId k) = normalizeKey parsePageId k"
    by (simp add: normalizeKey_parsePageId_twice)
  have 3: "singleAlias parsePageId (map fst ?es)" by (rule singleAlias_parsePageId)
  have 4: "wrappedOnce (blockRecs twiceHeap) ?es" by code_simp
  have 5: "distinct (map fst ?ces)" "distinct (map snd ?ces)" by simp_all
  have 6: "wrappedOnce (collectionRecs twiceHeap) ?ces" by code_simp
  have h1: "\<forall>es. block twiceMap = Some es \<longrightarrow>
             distinct (map fst es) \<and> distinct (map snd es) \<and>
             (\<forall>(k, a) \<in> set es.
                normalizeKey parsePageId (normalizeKey parsePageId k) = normalizeKey parsePageId k) \<and>
             singleAlias parsePageId (map fst es) \<and>
             wrappedOnce (blockRecs twiceHeap) es"
    using 0 1 2 3 4 unfolding b by blast
  have h2: "\<forall>ces. collection twiceMap = Some ces \<longrightarrow>
             distinct (map fst ces) \<and> distinct (map snd ces) \<and>
             wrappedOnce (collectionRecs twiceHeap) ces"
    using 5 6 unfolding c by blast
  have o: "block (fst (sanitizeRecordMap parsePageId twiceHeap twiceMap)) =
     Some [(exU, 0), (exD, 0), (''p'', 1)]" by code_simp
  show ?thesis
    using sanitize_idempotent [OF h1 h2] o by blast
qed

subsection \<open>Type inference\<close>

text \<open>
  Claim C3. Every block of the output has a non-empty type. For a record held by one key
  only, the type after the call is the type of the block (the value after flattening)
  when that is non-empty, and otherwise the tag chosen in this order: \<open>text\<close> for a
  block with properties, \<open>column_list\<close> for one with a content array, \<open>page\<close> for
  one whose \<open>parent_table\<close> is \<open>collection\<close>, and \<open>text\<close> for the rest.
\<close>

theorem type_inference:
  assumes "block rm = Some es"
  shows "(\<forall>k a. map_of (the (block (fst (sanitizeRecordMap pp h rm)))) k = Some a \<longrightarrow>
            (\<exists>r' v'. lookupRec (blockRecs (fst (snd (sanitizeRecordMap pp h rm)))) a = Some r' \<and>
                     rvalue r' = Some v' \<and> truthy (obj_get v' ''type''))) \<and>
         (distinct (map snd es) \<longrightarrow>
          (\<forall>key a r v. (key, a) \<in> set es \<and> lookupRec (blockRecs h) a = Some r \<and> rvalue r = Some v \<longrightarrow>
            (\<exists>r' v'. lookupRec (blockRecs (fst (snd (sanitizeRecordMap pp h rm)))) a = Some r' \<and>
                     rvalue r' = Some v' \<and>
                     obj_get v' ''type'' =
                       (if truthy (obj_get (flattenValue v) ''type'')
                          then obj_get (flattenValue v) ''type''
                        else if truthy (obj_get (flattenValue v) ''properties'')
                          then JStr ''text''
                        else if (\<exists>xs. obj_get (flattenValue v) ''content'' = JArr xs)
                          then JStr ''column_list''
                        else if obj_get (flattenValue v) ''parent_table'' = JStr ''collection''
                          then JStr ''page''
                        else JStr ''text''))))"
proof (intro conjI allI impI)
  fix k a
  assume m: "map_of (the (block (fst (sanitizeRecordMap pp h rm)))) k = Some a"
  let ?res = "fold (blockStep pp) es
      (blockRecs h, [], missingSummary (snd (resolveReferences pp (blockRecs h) es)))"
  from m have "(k, a) \<in> set (fst (snd ?res))"
    using sanitizeRecordMap_block [OF assms(1), of pp h] by (auto dest: map_of_SomeD)
  then have "a \<in> snd ` set (fst (snd ?res))" by force
  then obtain k' where k': "(k', a) \<in> set es" and hv: "hasValue (blockRecs h) a"
    using fold_blockStep_addresses [of pp es "blockRecs h" "[]"] by auto
  have "typed (fst ?res) a" using k' hv by (rule fold_blockStep_typed)
  moreover have "a < length (fst ?res)"
    using hv by (simp add: fold_blockStep_length hasValue_def)
  ultimately show "\<exists>r' v'. lookupRec (blockRecs (fst (snd (sanitizeRecordMap pp h rm)))) a = Some r' \<and>
                rvalue r' = Some v' \<and> truthy (obj_get v' ''type'')"
    using sanitizeRecordMap_blockRecs [OF assms(1), of pp h]
    by (auto simp: typed_def lookupRec_def)
next
  fix key a r v
  assume d: "distinct (map snd es)"
  assume "(key, a) \<in> set es \<and> lookupRec (blockRecs h) a = Some r \<and> rvalue r = Some v"
  then have 1: "(key, a) \<in> set es" and 2: "lookupRec (blockRecs h) a = Some r"
    and 3: "rvalue r = Some v" by simp_all
  have "obj_get (fst (sanitizeBlock key v)) ''type'' =
          (if truthy (obj_get (flattenValue v) ''type'')
             then obj_get (flattenValue v) ''type''
           else if truthy (obj_get (flattenValue v) ''properties'')
             then JStr ''text''
           else if (\<exists>xs. obj_get (flattenValue v) ''content'' = JArr xs)
             then JStr ''column_list''
           else if obj_get (flattenValue v) ''parent_table'' = JStr ''collection''
             then JStr ''page''
           else JStr ''text'')"
    unfolding sanitizeBlock_type inferType_priority by simp
  then show "\<exists>r' v'. lookupRec (blockRecs (fst (snd (sanitizeRecordMap pp h rm)))) a = Some r' \<and>
                rvalue r' = Some v' \<and>
                obj_get v' ''type'' =
                  (if truthy (obj_get (flattenValue v) ''type'')
                     then obj_get (flattenValue v) ''type''
                   else if truthy (obj_get (flattenValue v) ''properties'')
                     then JStr ''text''
                   else if (\<exists>xs. obj_get (flattenValue v) ''content'' = JArr xs)
                     then JStr ''column_list''
                   else if obj_get (flattenValue v) ''parent_table'' = JStr ''collection''
                     then JStr ''page''
                   else JStr ''text'')"
    using sanitized_record_at [OF assms d 1 2 3, of pp] by simp
qed

theorem type_inference_witness:
  "\<exists>r' v'. lookupRec (blockRecs (fst (snd (sanitizeRecordMap parsePageId typesHeap typesMap)))) 1 = Some r' \<and>
           rvalue r' = Some v' \<and> obj_get v' ''type'' = JStr ''column_list''"
proof -
  have 1: "block typesMap = Some [(''b0'', 0), (''b1'', 1), (''b2'', 2), (''b3'', 3), (''b4'', 4)]"
    by (simp add: typesMap_def)
  have 2: "distinct (map snd [(''b0'', 0::nat), (''b1'', 1), (''b2'', 2), (''b3'', 3), (''b4'', 4)])"
    by simp
  have 3: "(''b1'', 1) \<in> set [(''b0'', 0::nat), (''b1'', 1), (''b2'', 2), (''b3'', 3), (''b4'', 4)] \<and>
      lookupRec (blockRecs typesHeap) 1 =
        Some \<lparr>role = JStr ''reader'', rvalue = Some [(''content'', JArr [JStr ''b2''])]\<rparr> \<and>
      rvalue \<lparr>role = JStr ''reader'', rvalue = Some [(''content'', JArr [JStr ''b2''])]\<rparr> =
        Some [(''content'', JArr [JStr ''b2''])]"
    by (simp add: typesHeap_def lookupRec_def)
  from type_inference [OF 1, of parsePageId typesHeap] 2 3
  have "\<exists>r' v'. lookupRec (blockRecs (fst (snd (sanitizeRecordMap parsePageId typesHeap typesMap)))) 1 = Some r' \<and>
           rvalue r' = Some v' \<and>
           obj_get v' ''type'' =
             (if truthy (obj_get (flattenValue [(''content'', JArr [JStr ''b2''])]) ''type'')
                then obj_get (flattenValue [(''content'', JArr [JStr ''b2''])]) ''type''
              else if truthy (obj_get (flattenValue [(''content'', JArr [JStr ''b2''])]) ''properties'')
                then JStr ''text''
              else if (\<exists>xs. obj_get (flattenValue [(''content'', JArr [JStr ''b2''])]) ''content'' = JArr xs)
                then JStr ''column_list''
              else if obj_get (flattenValue [(''content'', JArr [JStr ''b2''])]) ''parent_table'' = JStr ''collection''
                then JStr ''page''
              else JStr ''text'')"
    by blast
  then show ?thesis
    by (simp add: flattenValue_def hasNestedValue_def obj_get_def)
qed

subsection \<open>Flattening of wrapped records\<close>



subsection \<open>Reference resolution\<close>

text \<open>
  Claim C5, as stated, fails for an identifier that is not a string: the number 42 in a
  content array is passed over and ends neither among the resolved nor among the
  missing identifiers.
\<close>

theorem number_child_unclassified:
  "contentChildren (blockRecs numberRefHeap) [(''p'', 0)] = [JNum 42] \<and>
   resolveReferences parsePageId (blockRecs numberRefHeap) [(''p'', 0)] = ([], [])"
  by code_simp

text \<open>
  Claim C5, amended. The pass is a total function of its input. Every string in a
  content array is classified exactly once: it is resolved (its key is recorded as
  referenced and the string is not recorded as missing) when \<open>actualKey\<close> is truthy,
  and recorded as missing otherwise, whatever its shape. The missing identifiers are
  strings of content arrays, the referenced ones are storage keys, and no identifier is
  both. Elements that are not strings are passed over.
\<close>

theorem reference_classification:
  "(\<forall>c. JStr c \<in> set (contentChildren st es) \<longrightarrow>
      (if truthyKey (resolveChild pp (map fst es) c)
       then the (resolveChild pp (map fst es) c) \<in> set (fst (resolveReferences pp st es)) \<and>
            c \<notin> set (snd (resolveReferences pp st es))
       else c \<in> set (snd (resolveReferences pp st es)))) \<and>
   set (snd (resolveReferences pp st es)) \<subseteq> {c. JStr c \<in> set (contentChildren st es)} \<and>
   set (fst (resolveReferences pp st es)) \<subseteq> set (map fst es) \<and>
   set (fst (resolveReferences pp st es)) \<inter> set (snd (resolveReferences pp st es)) = {}"
proof -
  have keys: "k \<in> set (map fst es) \<and> k \<noteq> []"
    if "k \<in> set (fst (resolveReferences pp st es))" for k
  proof -
    from that obtain c where "truthyKey (resolveChild pp (map fst es) c)"
      and "k = the (resolveChild pp (map fst es) c)"
      by (auto simp: referenced_set)
    then have "resolveChild pp (map fst es) c = Some k" and "k \<noteq> []"
      by (cases "resolveChild pp (map fst es) c"; simp)+
    then show ?thesis using resolveChild_in_keys by blast
  qed
  have disj: "k \<notin> set (snd (resolveReferences pp st es))"
    if "k \<in> set (fst (resolveReferences pp st es))" for k
    using keys [OF that] resolveChild_exact [of k "map fst es" pp] by (auto simp: missing_set)
  show ?thesis
    using keys disj by (auto simp: missing_set referenced_set)
qed
theorem reference_classification_witness:
  "exD \<in> set (fst (resolveReferences parsePageId (blockRecs resolveHeap) [(exD, 0), (''p'', 1)])) \<and>
   exU \<notin> set (snd (resolveReferences parsePageId (blockRecs resolveHeap) [(exD, 0), (''p'', 1)])) \<and>
   ''gone'' \<in> set (snd (resolveReferences parsePageId (blockRecs resolveHeap) [(exD, 0), (''p'', 1)]))"
proof -
  let ?st = "blockRecs resolveHeap"
  let ?es = "[(exD, 0::nat), (''p'', 1)]"
  have c: "contentChildren ?st ?es = [JStr exU, JStr ''gone'']" by code_simp
  have r1: "resolveChild parsePageId (map fst ?es) exU = Some exD" by code_simp
  have r2: "resolveChild parsePageId (map fst ?es) ''gone'' = None" by code_simp
  have e1: "exD \<noteq> []" by (simp add: exD_def)
  note t = reference_classification [of ?st ?es parsePageId, THEN conjunct1, rule_format]
  have m1: "JStr exU \<in> set (contentChildren ?st ?es)" unfolding c by simp
  have m2: "JStr ''gone'' \<in> set (contentChildren ?st ?es)" unfolding c by simp
  from t [OF m1] r1 e1 have
    "exD \<in> set (fst (resolveReferences parsePageId ?st ?es)) \<and>
     exU \<notin> set (snd (resolveReferences parsePageId ?st ?es))" by simp
  moreover from t [OF m2] r2 have "''gone'' \<in> set (snd (resolveReferences parsePageId ?st ?es))"
    by simp
  ultimately show ?thesis by simp
qed



subsection \<open>The diagnostic\<close>

text \<open>
  Claim C7, as stated, fails when an unresolved identifier is referenced more than once:
  the two references to \<open>x\<close> both fail, and the diagnostic reports 1.
\<close>

theorem repeated_reference_counted_once:
  "contentChildren (blockRecs repeatedRefHeap) [(''p'', 0)] = [JStr ''x'', JStr ''x''] \<and>
   resolveChild parsePageId (map fst [(''p'', 0::nat)]) ''x'' = None \<and>
   snd (snd (sanitizeRecordMap parsePageId repeatedRefHeap parentMap)) = [MissingBlocks 1]"
  by code_simp

text \<open>
  Claim C7, amended. The diagnostics of a call are: none when the record map has no
  block mapping or every string of every content array resolves; otherwise exactly one,
  which reports the number of distinct unresolved strings.
\<close>

theorem missing_summary:
  "snd (snd (sanitizeRecordMap pp h rm)) =
     (case block rm of
        None \<Rightarrow> []
      | Some es \<Rightarrow>
          (if card {c. JStr c \<in> set (contentChildren (blockRecs h) es) \<and>
                       \<not> truthyKey (resolveChild pp (map fst es) c)} = 0
           then []
           else [MissingBlocks
                   (card {c. JStr c \<in> set (contentChildren (blockRecs h) es) \<and>
                             \<not> truthyKey (resolveChild pp (map fst es) c)})]))"
proof (cases "block rm")
  case None
  then show ?thesis by (simp add: sanitizeRecordMap_def)
next
  case (Some es)
  then show ?thesis
    by (simp add: sanitizeRecordMap_log missingSummary_def missing_length)
qed

theorem missing_summary_witness:
  "snd (snd (sanitizeRecordMap parsePageId repeatedRefHeap parentMap)) = [MissingBlocks 1]"
proof -
  have b: "block parentMap = Some [(''p'', 0)]" by (simp add: parentMap_def)
  have c: "contentChildren (blockRecs repeatedRefHeap) [(''p'', 0)] = [JStr ''x'', JStr ''x'']"
    by code_simp
  have r: "resolveChild parsePageId (map fst [(''p'', 0::nat)]) ''x'' = None" by code_simp
  have "{c. JStr c \<in> set (contentChildren (blockRecs repeatedRefHeap) [(''p'', 0)]) \<and>
            \<not> truthyKey (resolveChild parsePageId (map fst [(''p'', 0::nat)]) c)} = {''x''}"
    unfolding c using r by auto
  then show ?thesis
    using missing_summary [of parsePageId repeatedRefHeap parentMap] b by simp
qed

subsection \<open>Mutation of the input\<close>

text \<open>
  Claim C8, as stated, fails: the call changes the record objects of its input. The
  wrapped record of the input heap holds the flattened value after the call.
\<close>

theorem input_record_mutated:
  "lookupRec (blockRecs wrapperHeap) 0 =
     Some \<lparr>role = JUndefined,
           rvalue = Some [(''role'', JStr ''reader''),
                          (''value'', JObj [(''id'', JStr ''x''), (''type'', JStr ''page'')])]\<rparr> \<and>
   lookupRec (blockRecs (fst (snd (sanitizeRecordMap parsePageId wrapperHeap wrapperMap)))) 0 =
     Some \<lparr>role = JUndefined,
           rvalue = Some [(''role'', JStr ''reader''), (''id'', JStr ''x''), (''type'', JStr ''page'')]\<rparr> \<and>
   fst (snd (sanitizeRecordMap parsePageId wrapperHeap wrapperMap)) \<noteq> wrapperHeap"
  by code_simp

text \<open>
  Claim C8, amended. The call creates and removes no record object and changes only the
  value of records: of the block records that the block mapping lists and that have a
  value, and of the collection records that the collection mapping lists and that have
  a value, when there is a block mapping. Every other record and every role is as
  before, the fields passed through are returned as they are, and every record of the
  returned block mapping is a record object of the input.
\<close>

theorem mutation_frame:
  "length (blockRecs (fst (snd (sanitizeRecordMap pp h rm)))) = length (blockRecs h) \<and>
   length (collectionRecs (fst (snd (sanitizeRecordMap pp h rm)))) = length (collectionRecs h) \<and>
   (\<forall>a < length (blockRecs h).
      role (blockRecs (fst (snd (sanitizeRecordMap pp h rm))) ! a) = role (blockRecs h ! a)) \<and>
   (\<forall>a < length (collectionRecs h).
      role (collectionRecs (fst (snd (sanitizeRecordMap pp h rm))) ! a) = role (collectionRecs h ! a)) \<and>
   (\<forall>a. \<not> (\<exists>es k. block rm = Some es \<and> (k, a) \<in> set es \<and> hasValue (blockRecs h) a) \<longrightarrow>
      blockRecs (fst (snd (sanitizeRecordMap pp h rm))) ! a = blockRecs h ! a) \<and>
   (\<forall>a. \<not> (\<exists>es ces k. block rm = Some es \<and> collection rm = Some ces \<and> (k, a) \<in> set ces \<and>
              hasValue (collectionRecs h) a) \<longrightarrow>
      collectionRecs (fst (snd (sanitizeRecordMap pp h rm))) ! a = collectionRecs h ! a) \<and>
   others (fst (sanitizeRecordMap pp h rm)) = others rm \<and>
   (\<forall>es k a. block rm = Some es \<and>
      map_of (the (block (fst (sanitizeRecordMap pp h rm)))) k = Some a \<longrightarrow> a \<in> snd ` set es)"
proof (cases "block rm")
  case None
  then show ?thesis by (simp add: sanitizeRecordMap_None)
next
  case (Some es)
  let ?L = "missingSummary (snd (resolveReferences pp (blockRecs h) es))"
  note b = sanitizeRecordMap_blockRecs [OF Some, of pp h]
  note c = sanitizeRecordMap_collectionRecs [OF Some, of pp h]
  have 1: "length (blockRecs (fst (snd (sanitizeRecordMap pp h rm)))) = length (blockRecs h)"
    unfolding b by (rule fold_blockStep_length)
  have 2: "length (collectionRecs (fst (snd (sanitizeRecordMap pp h rm)))) = length (collectionRecs h)"
    unfolding c by (simp add: fold_collectionStep_length split: option.splits)
  have 3: "role (blockRecs (fst (snd (sanitizeRecordMap pp h rm))) ! a) = role (blockRecs h ! a)"
    if "a < length (blockRecs h)" for a
    unfolding b using that by (rule fold_blockStep_role)
  have 4: "role (collectionRecs (fst (snd (sanitizeRecordMap pp h rm))) ! a) = role (collectionRecs h ! a)"
    if "a < length (collectionRecs h)" for a
    unfolding c using that by (simp add: fold_collectionStep_role split: option.splits)
  have 5: "blockRecs (fst (snd (sanitizeRecordMap pp h rm))) ! a = blockRecs h ! a"
    if "\<not> (\<exists>es k. block rm = Some es \<and> (k, a) \<in> set es \<and> hasValue (blockRecs h) a)" for a
  proof -
    from that Some have "\<forall>k. (k, a) \<in> set es \<longrightarrow> \<not> hasValue (blockRecs h) a" by auto
    then show ?thesis unfolding b by (rule fold_blockStep_frame)
  qed
  have 6: "collectionRecs (fst (snd (sanitizeRecordMap pp h rm))) ! a = collectionRecs h ! a"
    if "\<not> (\<exists>es ces k. block rm = Some es \<and> collection rm = Some ces \<and> (k, a) \<in> set ces \<and>
              hasValue (collectionRecs h) a)" for a
  proof (cases "collection rm")
    case None
    then show ?thesis unfolding c by simp
  next
    case (Some ces)
    with that \<open>block rm = Some es\<close>
    have "\<forall>k. (k, a) \<in> set ces \<longrightarrow> \<not> hasValue (collectionRecs h) a" by auto
    from fold_collectionStep_frame [OF this]
    show ?thesis unfolding c using Some by simp
  qed
  have 7: "a \<in> snd ` set es'"
    if "block rm = Some es' \<and> map_of (the (block (fst (sanitizeRecordMap pp h rm)))) k = Some a"
    for es' k a
  proof -
    from that Some have es': "es' = es" by simp
    from that have "(k, a) \<in> set (fst (snd (fold (blockStep pp) es (blockRecs h, [], ?L))))"
      using sanitizeRecordMap_block [OF Some, of pp h] by (auto dest: map_of_SomeD)
    then have "a \<in> snd ` set (fst (snd (fold (blockStep pp) es (blockRecs h, [], ?L))))"
      by force
    then show ?thesis
      unfolding es' using fold_blockStep_addresses [of pp es "blockRecs h" "[]" ?L] by force
  qed
  show ?thesis
  proof (intro conjI allI impI)
    show "length (blockRecs (fst (snd (sanitizeRecordMap pp h rm)))) = length (blockRecs h)"
      by (rule 1)
    show "length (collectionRecs (fst (snd (sanitizeRecordMap pp h rm)))) = length (collectionRecs h)"
      by (rule 2)
    show "role (blockRecs (fst (snd (sanitizeRecordMap pp h rm))) ! a) = role (blockRecs h ! a)"
      if "a < length (blockRecs h)" for a using that by (rule 3)
    show "role (collectionRecs (fst (snd (sanitizeRecordMap pp h rm))) ! a) = role (collectionRecs h ! a)"
      if "a < length (collectionRecs h)" for a using that by (rule 4)
    show "blockRecs (fst (snd (sanitizeRecordMap pp h rm))) ! a = blockRecs h ! a"
      if "\<not> (\<exists>es k. block rm = Some es \<and> (k, a) \<in> set es \<and> hasValue (blockRecs h) a)" for a
      using that by (rule 5)
    show "collectionRecs (fst (snd (sanitizeRecordMap pp h rm))) ! a = collectionRecs h ! a"
      if "\<not> (\<exists>es ces k. block rm = Some es \<and> collection rm = Some ces \<and> (k, a) \<in> set ces \<and>
              hasValue (collectionRecs h) a)" for a
      using that by (rule 6)
    show "others (fst (sanitizeRecordMap pp h rm)) = others rm"
      by (rule sanitizeRecordMap_others)
    show "a \<in> snd ` set es'"
      if "block rm = Some es' \<and> map_of (the (block (fst (sanitizeRecordMap pp h rm)))) k = Some a"
      for es' k a using that by (rule 7)
  qed
qed

theorem mutation_frame_witness:
  "blockRecs (fst (snd (sanitizeRecordMap parsePageId typesHeap wrapperMap))) ! 1 = blockRecs typesHeap ! 1"
proof -
  have "\<not> (\<exists>es k. block wrapperMap = Some es \<and> (k, 1) \<in> set es \<and> hasValue (blockRecs typesHeap) 1)"
    by (simp add: wrapperMap_def)
  then show ?thesis
    using mutation_frame [of parsePageId typesHeap wrapperMap] by blast
qed

subsection \<open>Collections\<close>

text \<open>
  Claim C9, as stated, fails for a record map without a block mapping: the guard at the
  head of the function returns it as it is, with its collection record that has no
  value.
\<close>

theorem collection_kept_without_block:
  "\<not> hasValue (collectionRecs noBlockHeap) 0 \<and>
   collection (fst (sanitizeRecordMap parsePageId noBlockHeap noBlockMap)) = Some [(''c'', 0)]"
  by code_simp

text \<open>
  Claim C9, amended. A record map without a block mapping is returned as it is. With a
  block mapping, a collection record (its key and its record object listed once) is
  omitted from the output when it has no value; otherwise it is in the output under its
  key, its value replaced by the flattened value and nothing else: the merge of the
  wrapper's fields except \<open>value\<close> with the inner fields for a wrapper, the value
  itself otherwise. The output has no key that the input has not.
\<close>

theorem collection_normalizer:
  "(block rm = None \<longrightarrow> sanitizeRecordMap pp h rm = (rm, h, [])) \<and>
   (\<forall>es ces key a.
      block rm = Some es \<and> collection rm = Some ces \<and>
      distinct (map fst ces) \<and> distinct (map snd ces) \<and> (key, a) \<in> set ces \<longrightarrow>
      (if hasValue (collectionRecs h) a
       then map_of (the (collection (fst (sanitizeRecordMap pp h rm)))) key = Some a \<and>
            collectionRecs (fst (snd (sanitizeRecordMap pp h rm))) ! a =
              (collectionRecs h ! a)
                \<lparr>rvalue := Some (flattenValue (the (rvalue (collectionRecs h ! a))))\<rparr>
       else map_of (the (collection (fst (sanitizeRecordMap pp h rm)))) key = None) \<and>
      fst ` set (the (collection (fst (sanitizeRecordMap pp h rm)))) \<subseteq> fst ` set ces) \<and>
   (\<forall>v. hasNestedValue v \<and> distinct (map fst (ownEntries (obj_get v ''value''))) \<longrightarrow>
      map_of (flattenValue v) =
        (map_of v)(''value'' := None) ++ map_of (ownEntries (obj_get v ''value''))) \<and>
   (\<forall>v. \<not> hasNestedValue v \<longrightarrow> flattenValue v = v)"
proof (intro conjI allI impI)
  show "sanitizeRecordMap pp h rm = (rm, h, [])" if "block rm = None"
    using that by (rule sanitizeRecordMap_None)
  show "map_of (flattenValue v) =
        (map_of v)(''value'' := None) ++ map_of (ownEntries (obj_get v ''value''))"
    if "hasNestedValue v \<and> distinct (map fst (ownEntries (obj_get v ''value'')))" for v
    using that by (simp add: map_of_flattenValue)
  show "flattenValue v = v" if "\<not> hasNestedValue v" for v
    using that by (simp add: flattenValue_def)
next
  fix es ces key a
  assume a: "block rm = Some es \<and> collection rm = Some ces \<and>
      distinct (map fst ces) \<and> distinct (map snd ces) \<and> (key, a) \<in> set ces"
  then have b: "block rm = Some es" and c: "collection rm = Some ces"
    and dk: "distinct (map fst ces)" and da: "distinct (map snd ces)" and m: "(key, a) \<in> set ces"
    by simp_all
  have out: "the (collection (fst (sanitizeRecordMap pp h rm))) =
      filter (\<lambda>(k, a). hasValue (collectionRecs h) a) ces"
    using sanitizeRecordMap_collection [OF b, of pp h] c
      fold_collectionStep_out [OF dk, of "[]" "collectionRecs h"] by simp
  have st: "collectionRecs (fst (snd (sanitizeRecordMap pp h rm))) =
      fst (fold collectionStep ces (collectionRecs h, []))"
    using sanitizeRecordMap_collectionRecs [OF b, of pp h] c by simp
  have mo: "map_of (filter (\<lambda>(k, a). hasValue (collectionRecs h) a) ces) key =
      (if hasValue (collectionRecs h) a then Some a else None)"
  proof (cases "hasValue (collectionRecs h) a")
    case True
    then have "(key, a) \<in> set (filter (\<lambda>(k, a). hasValue (collectionRecs h) a) ces)"
      using m by simp
    moreover have "distinct (map fst (filter (\<lambda>(k, a). hasValue (collectionRecs h) a) ces))"
      using dk by (simp add: distinct_map_filter)
    ultimately show ?thesis using True by simp
  next
    case False
    have "key \<notin> fst ` set (filter (\<lambda>(k, a). hasValue (collectionRecs h) a) ces)"
    proof
      assume "key \<in> fst ` set (filter (\<lambda>(k, a). hasValue (collectionRecs h) a) ces)"
      then obtain a' where "(key, a') \<in> set ces" and "hasValue (collectionRecs h) a'" by auto
      with m dk have "a' = a" by (meson eq_key_imp_eq_value)
      with False \<open>hasValue (collectionRecs h) a'\<close> show False by simp
    qed
    then show ?thesis using False by (simp add: map_of_eq_None_iff)
  qed
  show "if hasValue (collectionRecs h) a
       then map_of (the (collection (fst (sanitizeRecordMap pp h rm)))) key = Some a \<and>
            collectionRecs (fst (snd (sanitizeRecordMap pp h rm))) ! a =
              (collectionRecs h ! a)
                \<lparr>rvalue := Some (flattenValue (the (rvalue (collectionRecs h ! a))))\<rparr>
       else map_of (the (collection (fst (sanitizeRecordMap pp h rm)))) key = None"
    using mo fold_collectionStep_at [OF da m, of "collectionRecs h" "[]"]
    unfolding out st by (simp add: flattened_def)
  show "fst ` set (the (collection (fst (sanitizeRecordMap pp h rm)))) \<subseteq> fst ` set ces"
    unfolding out by auto
qed

theorem collection_normalizer_witness:
  "map_of (the (collection (fst (sanitizeRecordMap parsePageId collectionHeap collectionMap)))) ''c0'' = None \<and>
   map_of (the (collection (fst (sanitizeRecordMap parsePageId collectionHeap collectionMap)))) exD = Some 1 \<and>
   collectionRecs (fst (snd (sanitizeRecordMap parsePageId collectionHeap collectionMap))) ! 1 =
     \<lparr>role = JStr ''reader'', rvalue = Some [(''role'', JStr ''reader''), (''name'', JStr ''Posts'')]\<rparr>"
proof -
  let ?ces = "[(''c0'', 0::nat), (exD, 1)]"
  have 1: "block collectionMap = Some [] \<and> collection collectionMap = Some ?ces \<and>
      distinct (map fst ?ces) \<and> distinct (map snd ?ces) \<and> (''c0'', 0) \<in> set ?ces"
    by (simp add: collectionMap_def exD_def)
  have 2: "block collectionMap = Some [] \<and> collection collectionMap = Some ?ces \<and>
      distinct (map fst ?ces) \<and> distinct (map snd ?ces) \<and> (exD, 1) \<in> set ?ces"
    by (simp add: collectionMap_def exD_def)
  have 3: "\<not> hasValue (collectionRecs collectionHeap) 0" "hasValue (collectionRecs collectionHeap) 1"
    by (simp_all add: collectionHeap_def hasValue_def)
  have 4: "(collectionRecs collectionHeap ! 1)
      \<lparr>rvalue := Some (flattenValue (the (rvalue (collectionRecs collectionHeap ! 1))))\<rparr> =
      \<lparr>role = JStr ''reader'', rvalue = Some [(''role'', JStr ''reader''), (''name'', JStr ''Posts'')]\<rparr>"
    by code_simp
  note t = collection_normalizer [of collectionMap parsePageId collectionHeap, THEN conjunct2,
      THEN conjunct1, THEN spec, THEN spec, THEN spec, THEN spec, THEN mp]
  from t [OF 1, THEN conjunct1] 3 have "map_of (the (collection (fst (sanitizeRecordMap parsePageId collectionHeap collectionMap)))) ''c0'' = None"
    by simp
  moreover from t [OF 2, THEN conjunct1] 3 have "map_of (the (collection (fst (sanitizeRecordMap parsePageId collectionHeap collectionMap)))) exD = Some 1 \<and>
    collectionRecs (fst (snd (sanitizeRecordMap parsePageId collectionHeap collectionMap))) ! 1 =
     (collectionRecs collectionHeap ! 1)
      \<lparr>rvalue := Some (flattenValue (the (rvalue (collectionRecs collectionHeap ! 1))))\<rparr>"
    by simp
  ultimately show ?thesis using 4 by simp
qed

subsection \<open>Collisions of canonical keys\<close>

text \<open>
  Claim C10. When two distinct block keys \<open>k1\<close> and \<open>k2\<close> have the same canonical form
  \<open>c\<close>, both records have a value, \<open>k1\<close> is iterated before \<open>k2\<close> and no key after
  \<open>k2\<close> is \<open>c\<close> or has the canonical form \<open>c\<close>, the output maps \<open>c\<close> to the record
  of \<open>k2\<close>, the later of the two: the last write wins and the binding of the earlier
  record under \<open>c\<close> is gone.
\<close>

theorem last_write_wins:
  assumes "block rm = Some (es1 @ [(k1, a1)] @ es2 @ [(k2, a2)] @ es3)"
    and "k1 \<noteq> k2" and "k1 \<noteq> []" and "k2 \<noteq> []"
    and "normalizeKey pp k1 = c" and "normalizeKey pp k2 = c"
    and "hasValue (blockRecs h) a1" and "hasValue (blockRecs h) a2"
    and "\<forall>(k, a) \<in> set es3. k \<noteq> c \<and> normalizeKey pp k \<noteq> c"
  shows "map_of (the (block (fst (sanitizeRecordMap pp h rm)))) c = Some a2"
proof -
  have w: "writes pp k2 c" using assms(4,6) writes_normalized by blast
  have nw: "\<forall>(k', a') \<in> set es3. hasValue (blockRecs h) a' \<longrightarrow> \<not> writes pp k' c"
    using assms(9) by (auto simp: writes_iff)
  have "map_of (fst (snd (fold (blockStep pp) ((es1 @ [(k1, a1)] @ es2) @ [(k2, a2)] @ es3)
          (blockRecs h, [], L)))) c = Some a2" for L
    by (rule fold_blockStep_last_writer [OF assms(8) w nw])
  then show ?thesis using sanitizeRecordMap_block [OF assms(1)] by simp
qed

theorem last_write_wins_witness:
  "map_of (the (block (fst (sanitizeRecordMap parsePageId collisionHeap collisionMap)))) exU = Some 1"
proof -
  have 1: "block collisionMap = Some ([] @ [(exU, 0)] @ [] @ [(exD, 1)] @ [])"
    by (simp add: collisionMap_def)
  have 2: "exU \<noteq> exD" "exU \<noteq> []" "exD \<noteq> []" by (simp_all add: exU_def exD_def)
  have 3: "normalizeKey parsePageId exU = exU" by code_simp
  have 4: "normalizeKey parsePageId exD = exU" by code_simp
  have 5: "hasValue (blockRecs collisionHeap) 0" "hasValue (blockRecs collisionHeap) 1"
    by (simp_all add: hasValue_def collisionHeap_def)
  show ?thesis
    using last_write_wins [OF 1 2 3 4 5] by simp
qed

end
